theory Spec2Isabelle
  imports Main "HOL-Library.Sublist"
begin

section \<open>Text\<close>

text \<open>
  The script works on Python \<open>str\<close> values: sequences of Unicode code points, whose
  length and indices count code points. A code point is modelled as a natural number and
  a text as a list of them, so that nothing of the file's content is left out of the
  model. \<open>ustr\<close> turns a literal into such a text.
\<close>

type_synonym codepoint = nat
type_synonym str = "codepoint list"

definition ustr :: "string \<Rightarrow> str" where
  "ustr s = map of_char s"

text \<open>
  \<open>str.isspace\<close> for one code point, the set \<open>str.strip()\<close> removes: the code
  points of bidirectional class WS, B or S and of category Zs.
\<close>

definition is_space :: "codepoint \<Rightarrow> bool" where
  "is_space c =
     ((9 \<le> c \<and> c \<le> 13) \<or> (28 \<le> c \<and> c \<le> 32) \<or> c = 133 \<or> c = 160 \<or> c = 5760 \<or>
      (8192 \<le> c \<and> c \<le> 8202) \<or> c = 8232 \<or> c = 8233 \<or> c = 8239 \<or> c = 8287 \<or>
      c = 12288)"

text \<open>\<open>s.strip()\<close>: leading and trailing whitespace removed.\<close>

definition strip :: "str \<Rightarrow> str" where
  "strip s = rev (dropWhile is_space (rev (dropWhile is_space s)))"

text \<open>\<open>s[i:j]\<close> for \<open>0 \<le> i \<le> j\<close>; Python clips both ends at the length, as here.\<close>

definition slice :: "str \<Rightarrow> nat \<Rightarrow> nat \<Rightarrow> str" where
  "slice s i j = take (j - i) (drop i s)"

text \<open>\<open>pat in s\<close>: \<open>pat\<close> occurs in \<open>s\<close> as a contiguous run.\<close>

fun str_in :: "str \<Rightarrow> str \<Rightarrow> bool" where
  "str_in pat [] = (pat = [])"
| "str_in pat (c # cs) = (prefix pat (c # cs) \<or> str_in pat cs)"

text \<open>\<open>s.endswith(suf)\<close>.\<close>

definition endswith :: "str \<Rightarrow> str \<Rightarrow> bool" where
  "endswith s suf = prefix (rev suf) (rev s)"

section \<open>Regular expressions\<close>

text \<open>
  The three patterns the script applies are sequences of single-character atoms, each
  taken once or under \<open>*\<close>, \<open>*?\<close> or \<open>+\<close>, with one capturing group. \<open>Lit c\<close> is the
  character \<open>c\<close>, \<open>Not c\<close> the class \<open>[^c]\<close> (which, as a negated class, accepts a line
  break), \<open>Dot\<close> is \<open>.\<close> under \<open>re.DOTALL\<close> (any character, line breaks too) and \<open>Alnum\<close>
  the class \<open>[a-zA-Z0-9]\<close>. \<open>Mark\<close> consumes nothing and records the position: an
  opening or closing parenthesis of a group.
\<close>

datatype atom = Lit codepoint | Not codepoint | Dot | Alnum

fun atom_ok :: "atom \<Rightarrow> codepoint \<Rightarrow> bool" where
  "atom_ok (Lit a) c = (c = a)"
| "atom_ok (Not a) c = (c \<noteq> a)"
| "atom_ok Dot c = True"
| "atom_ok Alnum c = ((97 \<le> c \<and> c \<le> 122) \<or> (65 \<le> c \<and> c \<le> 90) \<or> (48 \<le> c \<and> c \<le> 57))"

datatype item = One atom | StarG atom | StarL atom | PlusG atom | Mark

text \<open>
  The backtracking matcher of \<open>re\<close>, anchored at the head of the text: the first
  successful path in the engine's order of trial. A greedy star first takes one more
  character and falls back to the rest of the pattern; a lazy star first tries the rest
  of the pattern and takes one more character only when that fails. \<open>k\<close> is the number
  of characters consumed so far; the result is the end of the match and the positions
  of the marks passed on the successful path.
\<close>

fun rmatch :: "item list \<Rightarrow> nat \<Rightarrow> str \<Rightarrow> (nat \<times> nat list) option" where
  "rmatch [] k s = Some (k, [])"
| "rmatch (Mark # r) k s =
     (case rmatch r k s of None \<Rightarrow> None | Some (e, ms) \<Rightarrow> Some (e, k # ms))"
| "rmatch (One a # r) k [] = None"
| "rmatch (One a # r) k (c # cs) = (if atom_ok a c then rmatch r (Suc k) cs else None)"
| "rmatch (PlusG a # r) k [] = None"
| "rmatch (PlusG a # r) k (c # cs) =
     (if atom_ok a c then rmatch (StarG a # r) (Suc k) cs else None)"
| "rmatch (StarG a # r) k [] = rmatch r k []"
| "rmatch (StarG a # r) k (c # cs) =
     (if atom_ok a c
      then (case rmatch (StarG a # r) (Suc k) cs of
              Some m \<Rightarrow> Some m
            | None \<Rightarrow> rmatch r k (c # cs))
      else rmatch r k (c # cs))"
| "rmatch (StarL a # r) k [] = rmatch r k []"
| "rmatch (StarL a # r) k (c # cs) =
     (case rmatch r k (c # cs) of
        Some m \<Rightarrow> Some m
      | None \<Rightarrow> if atom_ok a c then rmatch (StarL a # r) (Suc k) cs else None)"

text \<open>
  The search loop shared by \<open>finditer\<close>, \<open>sub\<close> and \<open>search\<close>: the pattern is tried at
  each position from left to right; where it matches, the matched text is a \<open>Hit\<close> and
  the search goes on behind it; where it does not, the character is skipped. After an
  empty match the loop moves on by one character (no pattern of the script matches the
  empty text).
\<close>

datatype piece = Skip codepoint | Hit str "nat list"

function scan :: "item list \<Rightarrow> str \<Rightarrow> piece list" where
  "scan pat [] = (case rmatch pat 0 [] of None \<Rightarrow> [] | Some (e, ms) \<Rightarrow> [Hit [] ms])"
| "scan pat (c # cs) =
     (case rmatch pat 0 (c # cs) of
        None \<Rightarrow> Skip c # scan pat cs
      | Some (e, ms) \<Rightarrow>
          if e = 0 then Hit [] ms # Skip c # scan pat cs
          else Hit (take e (c # cs)) ms # scan pat (drop e (c # cs)))"
  by pat_completeness auto
termination
  by (relation "measure (\<lambda>(pat, s). length s)") auto

text \<open>
  A match object: \<open>m_start\<close> is \<open>match.start()\<close>, \<open>group0\<close> is \<open>match.group(0)\<close>, and
  \<open>m_marks\<close> holds the bounds of the capturing group, counted from \<open>m_start\<close>.
\<close>

record re_match =
  m_start :: nat
  group0 :: str
  m_marks :: "nat list"

fun matches_from :: "nat \<Rightarrow> piece list \<Rightarrow> re_match list" where
  "matches_from k [] = []"
| "matches_from k (Skip c # ps) = matches_from (Suc k) ps"
| "matches_from k (Hit t ms # ps) =
     \<lparr>m_start = k, group0 = t, m_marks = ms\<rparr> # matches_from (k + length t) ps"

text \<open>\<open>pattern.finditer(s)\<close>: the matches, left to right, none overlapping another.\<close>

definition finditer :: "item list \<Rightarrow> str \<Rightarrow> re_match list" where
  "finditer pat s = matches_from 0 (scan pat s)"

text \<open>\<open>re.sub(pattern, '', s)\<close>: what the matches leave.\<close>

fun unmatched :: "piece list \<Rightarrow> str" where
  "unmatched [] = []"
| "unmatched (Skip c # ps) = c # unmatched ps"
| "unmatched (Hit t ms # ps) = unmatched ps"

definition re_sub_empty :: "item list \<Rightarrow> str \<Rightarrow> str" where
  "re_sub_empty pat s = unmatched (scan pat s)"

text \<open>The texts \<open>re.sub\<close> replaces, in order: the spans it strips.\<close>

fun hit_texts :: "piece list \<Rightarrow> str list" where
  "hit_texts [] = []"
| "hit_texts (Skip c # ps) = hit_texts ps"
| "hit_texts (Hit t ms # ps) = t # hit_texts ps"

definition removed_spans :: "item list \<Rightarrow> str \<Rightarrow> str list" where
  "removed_spans pat s = hit_texts (scan pat s)"

text \<open>\<open>re.search(pattern, s)\<close> as a truth value: there is a match somewhere.\<close>

definition re_search :: "item list \<Rightarrow> str \<Rightarrow> bool" where
  "re_search pat s = (finditer pat s \<noteq> [])"

text \<open>\<open>match.group(1)\<close> for a pattern with one group.\<close>

definition group1 :: "re_match \<Rightarrow> str" where
  "group1 m = (case m_marks m of [b, e] \<Rightarrow> slice (group0 m) b e | _ \<Rightarrow> [])"

section \<open>The patterns of the script\<close>

definition lits :: "string \<Rightarrow> item list" where
  "lits w = map (\<lambda>c. One (Lit (of_char c))) w"

text \<open>\<^verbatim>\<open>re.compile(r'<View[^>]*>(.*?)</View>', re.DOTALL)\<close>\<close>

definition view_pattern :: "item list" where
  "view_pattern =
     lits ''<View'' @ [StarG (Not (of_char CHR ''>'')), One (Lit (of_char CHR ''>'')),
       Mark, StarL Dot, Mark] @ lits ''</View>''"

text \<open>\<^verbatim>\<open>r'\{[^}]*\}'\<close>, the pattern of a brace-delimited expression span.\<close>

definition brace_pattern :: "item list" where
  "brace_pattern =
     [One (Lit (of_char CHR ''{'')), StarG (Not (of_char CHR ''}'')),
      One (Lit (of_char CHR ''}''))]"

text \<open>\<^verbatim>\<open>r'<[^>]*>'\<close>, the pattern of an angle-bracket tag span.\<close>

definition tag_pattern :: "item list" where
  "tag_pattern =
     [One (Lit (of_char CHR ''<'')), StarG (Not (of_char CHR ''>'')),
      One (Lit (of_char CHR ''>''))]"

text \<open>\<^verbatim>\<open>r'[a-zA-Z0-9]+'\<close>\<close>

definition alnum_pattern :: "item list" where
  "alnum_pattern = [PlusG Alnum]"

text \<open>
  \<open>text_pattern\<close> is compiled by the script and never applied; it has no part in what
  the script computes and is not modelled.
\<close>

section \<open>The scan of one file\<close>

text \<open>The dictionary appended to \<open>issues\<close>, with its three keys.\<close>

record issue =
  "file" :: str
  line :: int
  content :: str

definition newline :: codepoint where
  "newline = 10"

text \<open>
  \<^verbatim>\<open>match.group(0)[:100] + '...' if len(match.group(0)) > 100 else match.group(0)\<close>
\<close>

definition snippet :: "str \<Rightarrow> str" where
  "snippet g = (if length g > 100 then take 100 g @ ustr ''...'' else g)"

text \<open>\<^verbatim>\<open>content[:match.start()].count('\n') + 1\<close>\<close>

definition line_num :: "str \<Rightarrow> re_match \<Rightarrow> int" where
  "line_num txt m = int (count_list (take (m_start m) txt) newline) + 1"

text \<open>
  The text left of a view's content once the brace spans, then the tag spans, are
  removed and the ends are stripped.
\<close>

definition cleaned :: "str \<Rightarrow> str" where
  "cleaned view_content =
     strip (re_sub_empty tag_pattern (re_sub_empty brace_pattern view_content))"

text \<open>The body of the loop over the matches: the issues one match adds.\<close>

definition region_issues :: "str \<Rightarrow> str \<Rightarrow> re_match \<Rightarrow> issue list" where
  "region_issues filepath txt m =
     (let view_content = strip (group1 m) in
      if view_content = [] then []
      else if cleaned view_content \<noteq> [] \<and> re_search alnum_pattern (cleaned view_content)
      then [\<lparr>file = filepath, line = line_num txt m, content = snippet (group0 m)\<rparr>]
      else [])"

text \<open>The loop over \<open>view_pattern.finditer(content)\<close> for one file's text.\<close>

definition scan_content :: "str \<Rightarrow> str \<Rightarrow> issue list" where
  "scan_content filepath txt =
     concat (map (region_issues filepath txt) (finditer view_pattern txt))"

section \<open>The walk over the tree\<close>

text \<open>
  What \<open>open\<close> and \<open>read\<close> can raise, each with the text \<open>str(e)\<close> gives; the
  \<open>except Exception\<close> clause catches all of them.
\<close>

datatype read_error = UnicodeDecodeError str | PermissionError str | OSError str

fun error_text :: "read_error \<Rightarrow> str" where
  "error_text (UnicodeDecodeError t) = t"
| "error_text (PermissionError t) = t"
| "error_text (OSError t) = t"

text \<open>
  The file system: what opening a path and reading it as UTF-8 text gives, either the
  text as \<open>read\<close> returns it (line ends as the text mode hands them over) or the
  error raised.
\<close>

type_synonym filesystem = "str \<Rightarrow> read_error + str"

text \<open>
  What \<open>print\<close> can raise when it writes a line to the standard output: the line
  cannot be encoded for the stream, or the stream cannot be written to. Each carries the
  text of the exception.
\<close>

datatype print_error = UnicodeEncodeError str | OutputError str

text \<open>
  The standard output: what \<open>print(line)\<close> raises for a line, \<open>None\<close> when the line is
  written.
\<close>

type_synonym out_stream = "str \<Rightarrow> print_error option"

text \<open>
  The state of the scan: the issues found, the lines printed by the \<open>except\<close> clause,
  and the paths given to \<open>open\<close>, each in order; and \<open>raised\<close>, the exception that
  has left the function, if one has. The \<open>print\<close> of the \<open>except\<close> clause stands
  outside any \<open>try\<close>, so what it raises leaves both loops and the function.
\<close>

record scan_state =
  issues :: "issue list"
  printed :: "str list"
  opened :: "str list"
  raised :: "print_error option"

text \<open>What a call gives back: the exception that left it, or the list \<open>issues\<close>.\<close>

definition returned :: "scan_state \<Rightarrow> print_error + issue list" where
  "returned st = (case raised st of Some x \<Rightarrow> Inl x | None \<Rightarrow> Inr (issues st))"

text \<open>\<^verbatim>\<open>f"Error reading {filepath}: {e}"\<close>\<close>

definition diagnostic :: "str \<Rightarrow> read_error \<Rightarrow> str" where
  "diagnostic filepath e = ustr ''Error reading '' @ filepath @ ustr '': '' @ error_text e"

text \<open>\<open>os.path.join(root, file)\<close> on POSIX.\<close>

definition join :: "str \<Rightarrow> str \<Rightarrow> str" where
  "join a b =
     (if prefix (ustr ''/'') b then b
      else if a = [] \<or> endswith a (ustr ''/'') then a @ b
      else a @ ustr ''/'' @ b)"

text \<open>\<^verbatim>\<open>'node_modules' in root or '.git' in root or 'build' in root\<close>\<close>

definition excluded :: "str \<Rightarrow> bool" where
  "excluded root =
     (str_in (ustr ''node_modules'') root \<or> str_in (ustr ''.git'') root \<or>
      str_in (ustr ''build'') root)"

text \<open>\<^verbatim>\<open>file.endswith(('.tsx', '.jsx', '.ts', '.js'))\<close>\<close>

definition selected :: "str \<Rightarrow> bool" where
  "selected f =
     (endswith f (ustr ''.tsx'') \<or> endswith f (ustr ''.jsx'') \<or>
      endswith f (ustr ''.ts'') \<or> endswith f (ustr ''.js''))"

text \<open>
  The \<open>try\<close> block for one selected file, with its \<open>except\<close> clause: a failed read
  is caught and its diagnostic printed; a \<open>print\<close> that raises is not caught.
\<close>

definition scan_file ::
  "filesystem \<Rightarrow> out_stream \<Rightarrow> str \<Rightarrow> scan_state \<Rightarrow> scan_state" where
  "scan_file fs out filepath st =
     (case fs filepath of
        Inl e \<Rightarrow>
          (case out (diagnostic filepath e) of
             None \<Rightarrow>
               st\<lparr>printed := printed st @ [diagnostic filepath e],
                  opened := opened st @ [filepath]\<rparr>
           | Some x \<Rightarrow>
               st\<lparr>opened := opened st @ [filepath], raised := Some x\<rparr>)
      | Inr txt \<Rightarrow>
          st\<lparr>issues := issues st @ scan_content filepath txt,
             opened := opened st @ [filepath]\<rparr>)"

text \<open>The loop over the files of one directory, left when an exception is raised.\<close>

fun scan_files ::
  "filesystem \<Rightarrow> out_stream \<Rightarrow> str \<Rightarrow> str list \<Rightarrow> scan_state \<Rightarrow> scan_state" where
  "scan_files fs out root [] st = st"
| "scan_files fs out root (f # files) st =
     (if selected f
      then (case raised (scan_file fs out (join root f) st) of
              None \<Rightarrow> scan_files fs out root files (scan_file fs out (join root f) st)
            | Some x \<Rightarrow> scan_file fs out (join root f) st)
      else scan_files fs out root files st)"

text \<open>
  The loop over \<open>os.walk(directory)\<close>, which yields one triple of a directory's path,
  its subdirectories and its files for each directory of the tree; it too is left when
  an exception is raised.
\<close>

fun walk_loop ::
  "filesystem \<Rightarrow> out_stream \<Rightarrow> (str \<times> str list \<times> str list) list \<Rightarrow> scan_state \<Rightarrow>
     scan_state" where
  "walk_loop fs out [] st = st"
| "walk_loop fs out ((root, dirs, files) # w) st =
     (if excluded root then walk_loop fs out w st
      else (case raised (scan_files fs out root files st) of
              None \<Rightarrow> walk_loop fs out w (scan_files fs out root files st)
            | Some x \<Rightarrow> scan_files fs out root files st))"

text \<open>
  The function: the state in which it ends, from the empty list of issues. Its value is
  \<open>returned\<close> of that state.
\<close>

definition find_text_in_views ::
  "filesystem \<Rightarrow> out_stream \<Rightarrow> (str \<times> str list \<times> str list) list \<Rightarrow> scan_state" where
  "find_text_in_views fs out walk =
     walk_loop fs out walk \<lparr>issues = [], printed = [], opened = [], raised = None\<rparr>"

section \<open>Notions used to state the properties\<close>

text \<open>
  \<open>s.find(w)\<close>: the least index at which \<open>w\<close> occurs in \<open>s\<close>, \<open>None\<close> where
  Python gives \<open>-1\<close>.
\<close>

fun find_sub :: "str \<Rightarrow> str \<Rightarrow> nat option" where
  "find_sub w [] = (if w = [] then Some 0 else None)"
| "find_sub w (c # cs) = (if prefix w (c # cs) then Some 0 else map_option Suc (find_sub w cs))"

text \<open>A run of literal characters as a pattern.\<close>

definition ones :: "str \<Rightarrow> item list" where
  "ones u = map (\<lambda>c. One (Lit c)) u"

text \<open>The text a piece of the search loop stands for.\<close>

fun piece_text :: "piece \<Rightarrow> str" where
  "piece_text (Skip c) = [c]"
| "piece_text (Hit t ms) = t"

text \<open>
  What \<open>view_pattern\<close> matches at the head of a text, read off the pattern: the opening
  \<open><View\<close>, everything up to the first \<open>>\<close>, and a body that ends at the first
  \<open></View>\<close> behind it. The result is the pair of the body's bounds.
\<close>

definition view_match :: "str \<Rightarrow> (nat \<times> nat) option" where
  "view_match s =
     (if prefix (ustr ''<View'') s
      then (case dropWhile (\<lambda>x. x \<noteq> of_char CHR ''>'') (drop 5 s) of
              [] \<Rightarrow> None
            | y # rest \<Rightarrow>
                (case find_sub (ustr ''</View>'') rest of
                   None \<Rightarrow> None
                 | Some j \<Rightarrow>
                     Some (6 + length (takeWhile (\<lambda>x. x \<noteq> of_char CHR ''>'') (drop 5 s)),
                           6 + length (takeWhile (\<lambda>x. x \<noteq> of_char CHR ''>'') (drop 5 s)) + j)))
      else None)"

text \<open>
  The brace pattern and the tag pattern have one shape: an opening character, a greedy
  run of anything but the closing character, the closing character. \<open>span_len\<close> is
  the length of what such a pattern matches at the head of a text, read off the
  pattern: from the opening character to the first closing character behind it.
\<close>

definition span_pattern :: "codepoint \<Rightarrow> codepoint \<Rightarrow> item list" where
  "span_pattern a b = [One (Lit a), StarG (Not b), One (Lit b)]"

definition span_len :: "codepoint \<Rightarrow> codepoint \<Rightarrow> str \<Rightarrow> nat option" where
  "span_len a b s =
     (case s of
        [] \<Rightarrow> None
      | x # t \<Rightarrow>
          if x = a \<and> b \<in> set t
          then Some (Suc (Suc (length (takeWhile (\<lambda>x. x \<noteq> b) t)))) else None)"

text \<open>
  The paths the walk would give to \<open>open\<close>, in order, if no exception left it: the
  selected files of the directories that are not excluded.
\<close>

fun scan_paths :: "(str \<times> str list \<times> str list) list \<Rightarrow> str list" where
  "scan_paths [] = []"
| "scan_paths ((root, dirs, files) # w) =
     (if excluded root then [] else map (join root) (filter selected files)) @ scan_paths w"

text \<open>
  What one opened path adds to the issues and to the printed lines, and the exception
  with which it leaves the scan, if it does.
\<close>

definition path_issues :: "filesystem \<Rightarrow> str \<Rightarrow> issue list" where
  "path_issues fs p = (case fs p of Inl e \<Rightarrow> [] | Inr txt \<Rightarrow> scan_content p txt)"

definition stop_error :: "filesystem \<Rightarrow> out_stream \<Rightarrow> str \<Rightarrow> print_error option" where
  "stop_error fs out p = (case fs p of Inl e \<Rightarrow> out (diagnostic p e) | Inr txt \<Rightarrow> None)"

definition path_prints :: "filesystem \<Rightarrow> out_stream \<Rightarrow> str \<Rightarrow> str list" where
  "path_prints fs out p =
     (case fs p of
        Inl e \<Rightarrow> (case out (diagnostic p e) of None \<Rightarrow> [diagnostic p e] | Some x \<Rightarrow> [])
      | Inr txt \<Rightarrow> [])"

text \<open>
  Of a list of paths to scan in order: the paths that are opened, which end with the
  first one that raises, and the exception of that one.
\<close>

fun reached :: "filesystem \<Rightarrow> out_stream \<Rightarrow> str list \<Rightarrow> str list" where
  "reached fs out [] = []"
| "reached fs out (p # ps) =
     p # (case stop_error fs out p of None \<Rightarrow> reached fs out ps | Some x \<Rightarrow> [])"

fun first_raise :: "filesystem \<Rightarrow> out_stream \<Rightarrow> str list \<Rightarrow> print_error option" where
  "first_raise fs out [] = None"
| "first_raise fs out (p # ps) =
     (case stop_error fs out p of None \<Rightarrow> first_raise fs out ps | Some x \<Rightarrow> Some x)"

text \<open>
  The two loops as one loop over the paths, used to describe the walk as a whole.
\<close>

fun run_paths :: "filesystem \<Rightarrow> out_stream \<Rightarrow> str list \<Rightarrow> scan_state \<Rightarrow> scan_state" where
  "run_paths fs out [] st = st"
| "run_paths fs out (p # ps) st =
     (case raised (scan_file fs out p st) of
        None \<Rightarrow> run_paths fs out ps (scan_file fs out p st)
      | Some x \<Rightarrow> scan_file fs out p st)"

text \<open>
  A file system given by a table of paths, for concrete runs: a path of the table reads
  as the table says, any other path fails as a missing file does.
\<close>

definition fs_of :: "(str \<times> (read_error + str)) list \<Rightarrow> filesystem" where
  "fs_of tbl p =
     (case map_of tbl p of
        Some r \<Rightarrow> r
      | None \<Rightarrow> Inl (OSError (ustr ''No such file or directory'')))"

text \<open>
  Two standard outputs, for concrete runs: one that takes every line, and a UTF-8
  stream with strict error handling, which cannot encode a surrogate code point (what an
  undecodable byte of a file name becomes in a path) and takes every other line.
\<close>

definition accept_all :: out_stream where
  "accept_all ln = None"

definition is_surrogate :: "codepoint \<Rightarrow> bool" where
  "is_surrogate c = (55296 \<le> c \<and> c \<le> 57343)"

definition utf8_strict :: out_stream where
  "utf8_strict ln =
     (if list_ex is_surrogate ln
      then Some (UnicodeEncodeError (ustr ''surrogates not allowed''))
      else None)"

section \<open>The matcher on the patterns of the script\<close>

lemma lits_ones: "lits w = ones (ustr w)"
  by (simp add: lits_def ones_def ustr_def comp_def)

lemma rmatch_ones:
  "rmatch (ones u @ r) k s =
     (if prefix u s then rmatch r (k + length u) (drop (length u) s) else None)"
proof (induction u arbitrary: k s)
  case Nil
  then show ?case by (simp add: ones_def)
next
  case (Cons a u)
  have step: "ones (a # u) @ r = One (Lit a) # (ones u @ r)"
    by (simp add: ones_def)
  show ?case
  proof (cases s)
    case Nil
    then show ?thesis by (simp add: step)
  next
    case (Cons c cs)
    then show ?thesis using Cons.IH [of "Suc k" cs] by (simp add: step)
  qed
qed

lemma rmatch_ones_end:
  "rmatch (ones u) k s = (if prefix u s then Some (k + length u, []) else None)"
  using rmatch_ones [of u "[]" k s] by simp

lemma rmatch_lazy_dot:
  "rmatch (StarL Dot # Mark # ones u) k s =
     (case find_sub u s of None \<Rightarrow> None | Some j \<Rightarrow> Some (k + j + length u, [k + j]))"
proof (induction s arbitrary: k)
  case Nil
  then show ?case by (simp add: rmatch_ones_end)
next
  case (Cons c cs)
  show ?case
  proof (cases "prefix u (c # cs)")
    case True
    then show ?thesis by (simp add: rmatch_ones_end)
  next
    case False
    then show ?thesis using Cons.IH [of "Suc k"]
      by (simp add: rmatch_ones_end split: option.splits)
  qed
qed

lemma rmatch_not_lit:
  "rmatch (StarG (Not c) # One (Lit c) # r) k s =
     (case dropWhile (\<lambda>x. x \<noteq> c) s of
        [] \<Rightarrow> None
      | y # rest \<Rightarrow> rmatch r (Suc (k + length (takeWhile (\<lambda>x. x \<noteq> c) s))) rest)"
proof (induction s arbitrary: k)
  case Nil
  then show ?case by simp
next
  case (Cons x xs)
  show ?case
  proof (cases "x = c")
    case True
    then show ?thesis by simp
  next
    case False
    have "rmatch (StarG (Not c) # One (Lit c) # r) k (x # xs) =
          rmatch (StarG (Not c) # One (Lit c) # r) (Suc k) xs"
      using False by (simp split: option.splits)
    also have "\<dots> = (case dropWhile (\<lambda>x. x \<noteq> c) xs of
        [] \<Rightarrow> None
      | y # rest \<Rightarrow> rmatch r (Suc (Suc k + length (takeWhile (\<lambda>x. x \<noteq> c) xs))) rest)"
      by (rule Cons.IH)
    also have "\<dots> = (case dropWhile (\<lambda>x. x \<noteq> c) (x # xs) of
        [] \<Rightarrow> None
      | y # rest \<Rightarrow> rmatch r (Suc (k + length (takeWhile (\<lambda>x. x \<noteq> c) (x # xs)))) rest)"
      using False by (simp del: dropWhile_eq_Nil_conv split: list.splits)
    finally show ?thesis .
  qed
qed

lemma view_pattern_ones:
  "view_pattern =
     ones (ustr ''<View'') @ StarG (Not (of_char CHR ''>'')) # One (Lit (of_char CHR ''>'')) #
       Mark # StarL Dot # Mark # ones (ustr ''</View>'')"
  by (simp add: view_pattern_def lits_ones)

lemma rmatch_mark_lazy:
  "rmatch (Mark # StarL Dot # Mark # ones u) k s =
     (case find_sub u s of None \<Rightarrow> None | Some j \<Rightarrow> Some (k + j + length u, [k, k + j]))"
  by (simp add: rmatch_lazy_dot split: option.splits)

lemma rmatch_view:
  "rmatch view_pattern 0 s =
     (case view_match s of None \<Rightarrow> None | Some (b, e) \<Rightarrow> Some (e + 7, [b, e]))"
proof -
  have len: "length (ustr ''<View'') = 5" "length (ustr ''</View>'') = 7"
    by (simp_all add: ustr_def)
  show ?thesis
    unfolding view_pattern_ones rmatch_ones rmatch_not_lit rmatch_mark_lazy view_match_def len
    by (cases "dropWhile (\<lambda>x. x \<noteq> of_char CHR ''>'') (drop 5 s)")
       (simp_all del: dropWhile_eq_Nil_conv split: option.splits)
qed

lemma rmatch_bounds:
  "rmatch pat k s = Some (e, ms) \<Longrightarrow>
     k \<le> e \<and> e \<le> k + length s \<and> (\<forall>m \<in> set ms. k \<le> m \<and> m \<le> e)"
proof (induction pat k s arbitrary: e ms rule: rmatch.induct)
qed (auto split: option.splits if_splits)

lemma rmatch_end_le: "rmatch pat 0 s = Some (e, ms) \<Longrightarrow> e \<le> length s"
  using rmatch_bounds [of pat 0 s e ms] by simp

lemma scan_concat: "concat (map piece_text (scan pat s)) = s"
proof (induction pat s rule: scan.induct)
  case (1 pat)
  then show ?case by (cases "rmatch pat 0 []") auto
next
  case (2 pat c cs)
  show ?case
  proof (cases "rmatch pat 0 (c # cs)")
    case None
    then show ?thesis using 2(1) by simp
  next
    case (Some r)
    obtain e ms where r: "r = (e, ms)" by (cases r)
    show ?thesis
    proof (cases "e = 0")
      case True
      then show ?thesis using 2(2) [OF Some r [symmetric]] Some r by simp
    next
      case False
      have "concat (map piece_text (scan pat (drop e (c # cs)))) = drop e (c # cs)"
        using 2(3) [OF Some r [symmetric] False] .
      then show ?thesis using Some r False
        by (simp del: take_Cons' drop_Cons' add: append_take_drop_id)
    qed
  qed
qed

lemma scan_hit:
  "Hit t ms \<in> set (scan pat s) \<Longrightarrow>
     \<exists>s'. rmatch pat 0 s' = Some (length t, ms) \<and> prefix t s'"
proof (induction pat s rule: scan.induct)
  case (1 pat)
  show ?case
  proof (cases "rmatch pat 0 []")
    case None
    then show ?thesis using 1 by simp
  next
    case (Some r)
    obtain e es where r: "r = (e, es)" by (cases r)
    have "e = 0" using rmatch_end_le [of pat "[]" e es] Some r by simp
    then have "rmatch pat 0 [] = Some (length t, ms) \<and> prefix t []"
      using 1 Some r by simp
    then show ?thesis by blast
  qed
next
  case (2 pat c cs)
  show ?case
  proof (cases "rmatch pat 0 (c # cs)")
    case None
    then show ?thesis using 2(1) 2(4) by simp
  next
    case (Some r)
    obtain e es where r: "r = (e, es)" by (cases r)
    have le: "e \<le> length (c # cs)" using rmatch_end_le Some r by blast
    show ?thesis
    proof (cases "e = 0")
      case True
      then show ?thesis using 2(2) [OF Some r [symmetric]] 2(4) Some r by auto
    next
      case False
      from 2(4) Some r False
      have "Hit t ms = Hit (take e (c # cs)) es \<or> Hit t ms \<in> set (scan pat (drop e (c # cs)))"
        by simp
      then show ?thesis
      proof
        assume "Hit t ms = Hit (take e (c # cs)) es"
        then have "t = take e (c # cs)" "ms = es" by simp_all
        then have "rmatch pat 0 (c # cs) = Some (length t, ms) \<and> prefix t (c # cs)"
          using Some r le by (simp add: take_is_prefix min_def)
        then show ?thesis by blast
      next
        assume "Hit t ms \<in> set (scan pat (drop e (c # cs)))"
        then show ?thesis using 2(3) [OF Some r [symmetric] False] by blast
      qed
    qed
  qed
qed

lemma matches_from_split:
  "m \<in> set (matches_from k ps) \<Longrightarrow>
     \<exists>ps1 ps2. ps = ps1 @ Hit (group0 m) (m_marks m) # ps2 \<and>
       m_start m = k + length (concat (map piece_text ps1))"
proof (induction k ps rule: matches_from.induct)
  case (1 k)
  then show ?case by simp
next
  case (2 k c ps)
  then obtain ps1 ps2 where "ps = ps1 @ Hit (group0 m) (m_marks m) # ps2"
    "m_start m = Suc k + length (concat (map piece_text ps1))" by auto
  then have "Skip c # ps = (Skip c # ps1) @ Hit (group0 m) (m_marks m) # ps2 \<and>
     m_start m = k + length (concat (map piece_text (Skip c # ps1)))" by simp
  then show ?case by blast
next
  case (3 k t ms ps)
  show ?case
  proof (cases "m = \<lparr>m_start = k, group0 = t, m_marks = ms\<rparr>")
    case True
    then have "Hit t ms # ps = [] @ Hit (group0 m) (m_marks m) # ps \<and>
      m_start m = k + length (concat (map piece_text []))" by simp
    then show ?thesis by blast
  next
    case False
    then have "m \<in> set (matches_from (k + length t) ps)" using 3(2) by simp
    then obtain ps1 ps2 where "ps = ps1 @ Hit (group0 m) (m_marks m) # ps2"
      "m_start m = k + length t + length (concat (map piece_text ps1))" using 3(1) by blast
    then have "Hit t ms # ps = (Hit t ms # ps1) @ Hit (group0 m) (m_marks m) # ps2 \<and>
      m_start m = k + length (concat (map piece_text (Hit t ms # ps1)))" by simp
    then show ?thesis by blast
  qed
qed

lemma finditer_position:
  assumes "m \<in> set (finditer pat txt)"
  shows "\<exists>pre rest. txt = pre @ group0 m @ rest \<and> length pre = m_start m"
proof -
  from assms obtain ps1 ps2 where ps: "scan pat txt = ps1 @ Hit (group0 m) (m_marks m) # ps2"
    and st: "m_start m = length (concat (map piece_text ps1))"
    using matches_from_split [of m 0 "scan pat txt"] by (auto simp: finditer_def)
  have "txt = concat (map piece_text (scan pat txt))" by (simp add: scan_concat)
  then have "txt = concat (map piece_text ps1) @ group0 m @ concat (map piece_text ps2)"
    by (simp add: ps)
  then show ?thesis using st by metis
qed

lemma finditer_hit:
  assumes "m \<in> set (finditer pat txt)"
  shows "\<exists>s'. rmatch pat 0 s' = Some (length (group0 m), m_marks m) \<and> prefix (group0 m) s'"
proof -
  from assms obtain ps1 ps2 where "scan pat txt = ps1 @ Hit (group0 m) (m_marks m) # ps2"
    using matches_from_split [of m 0 "scan pat txt"] by (auto simp: finditer_def)
  then have "Hit (group0 m) (m_marks m) \<in> set (scan pat txt)" by simp
  then show ?thesis by (rule scan_hit)
qed

lemma find_sub_SomeD:
  "find_sub w s = Some j \<Longrightarrow> \<exists>body rest. s = body @ w @ rest \<and> length body = j"
proof (induction s arbitrary: j)
  case Nil
  then show ?case by (simp split: if_splits)
next
  case (Cons c cs)
  show ?case
  proof (cases "prefix w (c # cs)")
    case True
    then obtain rest where "c # cs = w @ rest" by (auto simp: prefix_def)
    moreover have "j = 0" using Cons.prems True by simp
    ultimately have "c # cs = [] @ w @ rest \<and> length ([]::str) = j" by simp
    then show ?thesis by blast
  next
    case False
    then obtain j' where j': "find_sub w cs = Some j'" "j = Suc j'"
      using Cons.prems by auto
    then obtain body rest where "cs = body @ w @ rest" "length body = j'"
      using Cons.IH by blast
    then have "c # cs = (c # body) @ w @ rest \<and> length (c # body) = j"
      using j' by simp
    then show ?thesis by blast
  qed
qed

lemma find_sub_first:
  "find_sub w s = Some j \<Longrightarrow> i < j \<Longrightarrow> \<not> prefix w (drop i s)"
proof (induction s arbitrary: i j)
  case Nil
  then show ?case by (simp split: if_splits)
next
  case (Cons c cs)
  have np: "\<not> prefix w (c # cs)" using Cons.prems by (auto split: if_splits)
  then obtain j' where j': "find_sub w cs = Some j'" "j = Suc j'"
    using Cons.prems by auto
  show ?case
  proof (cases i)
    case 0
    then show ?thesis using np by simp
  next
    case (Suc i')
    then have "i' < j'" using Cons.prems j' by simp
    then show ?thesis using Cons.IH [OF j'(1)] Suc by simp
  qed
qed

lemma find_sub_occurs: "find_sub w (body @ w @ rest) \<noteq> None"
proof (induction body)
  case Nil
  have pw: "prefix w (w @ rest)" by simp
  show ?case
  proof (cases "w @ rest")
    case Nil
    then show ?thesis by simp
  next
    case (Cons a l)
    then show ?thesis using pw by simp
  qed
next
  case (Cons c body)
  then show ?case by simp
qed

lemma find_sub_take:
  "find_sub w s = Some j \<Longrightarrow> find_sub w (take (j + length w) s) = Some j"
proof (induction s arbitrary: j)
  case Nil
  then show ?case by (simp split: if_splits)
next
  case (Cons c cs)
  show ?case
  proof (cases "prefix w (c # cs)")
    case True
    then have j: "j = 0" using Cons.prems by simp
    have "prefix w (take (length w) (c # cs))"
      using True by (metis prefix_length_prefix take_is_prefix length_take min.cobounded1 prefix_length_le min_def)
    then show ?thesis using j by (cases "take (length w) (c # cs)") auto
  next
    case False
    then obtain j' where j': "find_sub w cs = Some j'" "j = Suc j'"
      using Cons.prems by auto
    have "\<not> prefix w (c # take (j' + length w) cs)"
    proof
      assume "prefix w (c # take (j' + length w) cs)"
      moreover have "prefix (c # take (j' + length w) cs) (c # cs)"
        by (simp add: take_is_prefix)
      ultimately show False using False prefix_order.trans by blast
    qed
    then show ?thesis using Cons.IH [OF j'(1)] j' by simp
  qed
qed

lemma matches_from_ge: "m \<in> set (matches_from k ps) \<Longrightarrow> k \<le> m_start m"
  using matches_from_split [of m k ps] by auto

lemma matches_from_sorted:
  "sorted_wrt (\<lambda>m m'. m_start m + length (group0 m) \<le> m_start m') (matches_from k ps)"
proof (induction k ps rule: matches_from.induct)
  case (3 k t ms ps)
  then show ?case using matches_from_ge [of _ "k + length t" ps] by auto
qed simp_all

lemma scan_cover:
  assumes "\<forall>s e ms. rmatch pat 0 s = Some (e, ms) \<longrightarrow> 0 < e"
    and "rmatch pat 0 (drop p s) \<noteq> None"
  shows "\<exists>m \<in> set (matches_from k (scan pat s)).
           m_start m \<le> k + p \<and> k + p < m_start m + length (group0 m)"
  using assms
proof (induction pat s arbitrary: p k rule: scan.induct)
  case (1 pat)
  then obtain e ms where "rmatch pat 0 [] = Some (e, ms)" by auto
  then have "0 < e" "e \<le> 0" using 1(1) rmatch_end_le [of pat "[]" e ms] by auto
  then show ?case by simp
next
  case (2 pat c cs)
  note ne = 2(4)
  show ?case
  proof (cases "rmatch pat 0 (c # cs)")
    case None
    then obtain p' where p': "p = Suc p'" using 2(5) by (cases p) auto
    then have "rmatch pat 0 (drop p' cs) \<noteq> None" using 2(5) by simp
    from 2(1) [OF None ne this, of "Suc k"] show ?thesis using None p' by simp
  next
    case (Some r)
    obtain e es where r: "r = (e, es)" by (cases r)
    have pos: "e \<noteq> 0" using ne Some r by auto
    have le: "e \<le> length (c # cs)" using rmatch_end_le Some r by blast
    have sc: "scan pat (c # cs) = Hit (take e (c # cs)) es # scan pat (drop e (c # cs))"
      using Some r pos by simp
    show ?thesis
    proof (cases "p < e")
      case True
      then show ?thesis unfolding sc using le by (simp add: min_def)
    next
      case False
      then have "drop p (c # cs) = drop (p - e) (drop e (c # cs))" by simp
      then have "rmatch pat 0 (drop (p - e) (drop e (c # cs))) \<noteq> None" using 2(5) by simp
      from 2(3) [OF Some r [symmetric] pos ne this, of "k + e"]
      show ?thesis unfolding sc using False le by (auto simp: min_def)
    qed
  qed
qed

section \<open>Evaluation\<close>

lemmas eval_defs = scan_content_def finditer_def view_pattern_def lits_def ustr_def
  region_issues_def group1_def slice_def strip_def is_space_def cleaned_def re_sub_empty_def
  brace_pattern_def tag_pattern_def alnum_pattern_def re_search_def line_num_def snippet_def
  newline_def removed_spans_def

lemmas walk_defs = find_text_in_views_def scan_file_def join_def excluded_def selected_def
  endswith_def fs_of_def diagnostic_def accept_all_def utf8_strict_def is_surrogate_def
  returned_def

section \<open>The regions of the container pattern\<close>

lemma ustr_lens: "length (ustr ''<View'') = 5" "length (ustr ''</View>'') = 7"
  by (simp_all add: ustr_def)

lemma view_match_SomeD:
  assumes "view_match s = Some (b, e)"
  shows "\<exists>attrs body rest.
           s = ustr ''<View'' @ attrs @ [of_char CHR ''>''] @ body @ ustr ''</View>'' @ rest \<and>
           of_char CHR ''>'' \<notin> set attrs \<and> b = 6 + length attrs \<and> e = b + length body \<and>
           find_sub (ustr ''</View>'') (body @ ustr ''</View>'') = Some (length body)"
proof -
  let ?gt = "of_char CHR ''>'' :: nat"
  let ?P = "\<lambda>x. x \<noteq> ?gt"
  define attrs where "attrs = takeWhile ?P (drop 5 s)"
  from assms have pre: "prefix (ustr ''<View'') s"
    by (simp add: view_match_def split: if_splits)
  then have s1: "s = ustr ''<View'' @ drop 5 s"
    by (metis append_eq_conv_conj prefix_def ustr_lens(1))
  from assms pre obtain y rest1 where dw: "dropWhile ?P (drop 5 s) = y # rest1"
    by (cases "dropWhile ?P (drop 5 s)") (simp_all add: view_match_def del: dropWhile_eq_Nil_conv)
  have y: "y = ?gt" using dw hd_dropWhile [of ?P "drop 5 s"] by auto
  from assms pre dw obtain j where j: "find_sub (ustr ''</View>'') rest1 = Some j"
    and b: "b = 6 + length attrs" and e: "e = b + j"
    by (cases "find_sub (ustr ''</View>'') rest1")
       (simp_all add: view_match_def attrs_def del: dropWhile_eq_Nil_conv)
  from find_sub_SomeD [OF j] obtain body rest where
    r1: "rest1 = body @ ustr ''</View>'' @ rest" and lb: "length body = j" by blast
  have t: "attrs @ (y # rest1) = drop 5 s"
    using takeWhile_dropWhile_id [of ?P "drop 5 s"] unfolding dw attrs_def .
  have s2: "drop 5 s = attrs @ [?gt] @ body @ ustr ''</View>'' @ rest"
    using t y r1 by simp
  have na: "?gt \<notin> set attrs" unfolding attrs_def using set_takeWhileD by fastforce
  have "take (j + length (ustr ''</View>'')) rest1 = body @ ustr ''</View>''"
    using r1 lb by simp
  then have fs: "find_sub (ustr ''</View>'') (body @ ustr ''</View>'') = Some (length body)"
    using find_sub_take [OF j] lb by simp
  have "s = ustr ''<View'' @ attrs @ [?gt] @ body @ ustr ''</View>'' @ rest"
    using s1 s2 by metis
  then show ?thesis using na b e lb fs by blast
qed

lemma view_match_occurs:
  assumes "s = ustr ''<View'' @ attrs @ [of_char CHR ''>''] @ body @ ustr ''</View>'' @ rest"
    and "of_char CHR ''>'' \<notin> set attrs"
  shows "view_match s \<noteq> None"
proof -
  let ?gt = "of_char CHR ''>'' :: nat"
  let ?P = "\<lambda>x. x \<noteq> ?gt"
  have pre: "prefix (ustr ''<View'') s" using assms(1) by simp
  have d5: "drop 5 s = attrs @ ?gt # (body @ ustr ''</View>'' @ rest)"
    using assms(1) ustr_lens(1) by simp
  have all: "\<forall>x\<in>set attrs. ?P x" using assms(2) by auto
  have dw: "dropWhile ?P (drop 5 s) = ?gt # (body @ ustr ''</View>'' @ rest)"
    unfolding d5 using all by (simp add: dropWhile_append2)
  obtain j where "find_sub (ustr ''</View>'') (body @ ustr ''</View>'' @ rest) = Some j"
    using find_sub_occurs [of "ustr ''</View>''" body rest] by auto
  then show ?thesis using pre dw
    by (simp add: view_match_def del: dropWhile_eq_Nil_conv)
qed

lemma view_nonempty: "rmatch view_pattern 0 s = Some (e, ms) \<Longrightarrow> 0 < e"
  by (auto simp: rmatch_view split: option.splits)

lemma region_structure:
  assumes "m \<in> set (finditer view_pattern txt)"
  shows "\<exists>attrs body.
           group0 m = ustr ''<View'' @ attrs @ [of_char CHR ''>''] @ body @ ustr ''</View>'' \<and>
           of_char CHR ''>'' \<notin> set attrs \<and> group1 m = body \<and>
           find_sub (ustr ''</View>'') (body @ ustr ''</View>'') = Some (length body)"
proof -
  from finditer_hit [OF assms] obtain s' where
    rm: "rmatch view_pattern 0 s' = Some (length (group0 m), m_marks m)"
    and pf: "prefix (group0 m) s'" by blast
  from rm obtain r where r: "view_match s' = Some r"
    by (cases "view_match s'") (simp_all add: rmatch_view)
  obtain b e where be: "r = (b, e)" by (cases r)
  have vm: "view_match s' = Some (b, e)" using r be by simp
  have len: "length (group0 m) = e + 7" and mk: "m_marks m = [b, e]"
    using rm vm by (simp_all add: rmatch_view)
  from view_match_SomeD [OF vm] obtain attrs body rest where
    s': "s' = ustr ''<View'' @ attrs @ [of_char CHR ''>''] @ body @ ustr ''</View>'' @ rest"
    and na: "of_char CHR ''>'' \<notin> set attrs" and b: "b = 6 + length attrs"
    and e: "e = b + length body"
    and fs: "find_sub (ustr ''</View>'') (body @ ustr ''</View>'') = Some (length body)"
    by blast
  let ?g = "ustr ''<View'' @ attrs @ [of_char CHR ''>''] @ body @ ustr ''</View>''"
  have "group0 m = take (length (group0 m)) s'" using pf
    by (metis append_eq_conv_conj prefix_def)
  also have "length (group0 m) = length ?g" using len b e ustr_lens by simp
  also have "take (length ?g) s' = ?g" unfolding s' by simp
  finally have g: "group0 m = ?g" .
  have "group1 m = slice ?g b e" using mk g by (simp add: group1_def)
  also have "\<dots> = body" using b e ustr_lens by (simp add: slice_def)
  finally show ?thesis using g na fs by blast
qed

section \<open>The brace and tag patterns\<close>

lemma brace_span: "brace_pattern = span_pattern (of_char CHR ''{'') (of_char CHR ''}'')"
  by (simp add: brace_pattern_def span_pattern_def)

lemma tag_span: "tag_pattern = span_pattern (of_char CHR ''<'') (of_char CHR ''>'')"
  by (simp add: tag_pattern_def span_pattern_def)

lemma dropWhile_case_mem:
  "(case dropWhile (\<lambda>x. x \<noteq> b) t of [] \<Rightarrow> None | y # rest \<Rightarrow> Some v) =
     (if b \<in> set t then Some v else None)"
proof (cases "dropWhile (\<lambda>x. x \<noteq> b) t")
  case Nil
  then have "b \<notin> set t" by auto
  then show ?thesis by (simp only: Nil list.case if_False)
next
  case (Cons y rest)
  then have "dropWhile (\<lambda>x. x \<noteq> b) t \<noteq> []" by simp
  then have "b \<in> set t" by auto
  then show ?thesis by (simp only: Cons list.case if_True)
qed

lemma rmatch_span:
  "rmatch (span_pattern a b) 0 s = (case span_len a b s of None \<Rightarrow> None | Some e \<Rightarrow> Some (e, []))"
proof (cases s)
  case Nil
  then show ?thesis by (simp add: span_pattern_def span_len_def)
next
  case (Cons x t)
  have r2: "rmatch [StarG (Not b), One (Lit b)] (Suc 0) t =
      (case dropWhile (\<lambda>x. x \<noteq> b) t of [] \<Rightarrow> None
       | y # rest \<Rightarrow> Some (Suc (Suc (length (takeWhile (\<lambda>x. x \<noteq> b) t))), []))"
    unfolding rmatch_not_lit by (cases "dropWhile (\<lambda>x. x \<noteq> b) t") (simp_all only: list.case rmatch.simps add_Suc add_0)
  have r3: "rmatch [StarG (Not b), One (Lit b)] (Suc 0) t =
      (if b \<in> set t then Some (Suc (Suc (length (takeWhile (\<lambda>x. x \<noteq> b) t))), []) else None)"
    unfolding r2 by (rule dropWhile_case_mem)
  have "rmatch (span_pattern a b) 0 (x # t) =
      (if x = a then rmatch [StarG (Not b), One (Lit b)] (Suc 0) t else None)"
    by (simp only: span_pattern_def rmatch.simps atom_ok.simps)
  also have "\<dots> = (case span_len a b (x # t) of None \<Rightarrow> None | Some e \<Rightarrow> Some (e, []))"
    unfolding r3 span_len_def by auto
  finally show ?thesis using Cons by simp
qed

lemma span_len_SomeD:
  assumes "span_len a b s = Some e"
  shows "\<exists>mid rest. s = [a] @ mid @ [b] @ rest \<and> b \<notin> set mid \<and> e = length mid + 2"
proof -
  from assms obtain x t where s: "s = x # t" by (cases s) (simp_all add: span_len_def)
  define mid where "mid = takeWhile (\<lambda>x. x \<noteq> b) t"
  from assms s have xa: "x = a" and bt: "b \<in> set t"
    and e: "e = Suc (Suc (length mid))"
    by (simp_all add: span_len_def mid_def split: if_splits)
  have dn: "dropWhile (\<lambda>x. x \<noteq> b) t \<noteq> []" using bt by simp
  then obtain y rest where dw: "dropWhile (\<lambda>x. x \<noteq> b) t = y # rest"
    by (cases "dropWhile (\<lambda>x. x \<noteq> b) t") simp_all
  have y: "y = b" using hd_dropWhile [OF dn] dw by simp
  have t: "mid @ (y # rest) = t"
    using takeWhile_dropWhile_id [of "\<lambda>x. x \<noteq> b" t] unfolding dw mid_def .
  have nb: "b \<notin> set mid" unfolding mid_def using set_takeWhileD by fastforce
  have "s = [a] @ mid @ [b] @ rest" using s xa t y by simp
  moreover have "e = length mid + 2" using e by simp
  ultimately show ?thesis using nb by blast
qed

lemma span_len_append:
  assumes "b \<notin> set w"
  shows "span_len a b (x @ w) = span_len a b x"
proof (cases x)
  case Nil
  have "span_len a b w = None" using assms
    by (cases w) (auto simp: span_len_def)
  then show ?thesis using Nil by (simp add: span_len_def)
next
  case (Cons c cs)
  show ?thesis
  proof (cases "b \<in> set cs")
    case True
    then have "takeWhile (\<lambda>x. x \<noteq> b) (cs @ w) = takeWhile (\<lambda>x. x \<noteq> b) cs"
      by (simp add: takeWhile_append1)
    then show ?thesis using Cons True by (simp add: span_len_def)
  next
    case False
    then show ?thesis using Cons assms by (simp add: span_len_def)
  qed
qed

lemma span_len_le:
  assumes "span_len a b s = Some e"
  shows "0 < e \<and> e \<le> length s"
proof -
  from span_len_SomeD [OF assms] obtain mid rest where
    "s = [a] @ mid @ [b] @ rest" "e = length mid + 2" by blast
  then show ?thesis by simp
qed

lemma sub_span_Nil: "re_sub_empty (span_pattern a b) [] = []"
  by (simp add: re_sub_empty_def rmatch_span span_len_def)

lemma sub_span_Cons:
  "re_sub_empty (span_pattern a b) (c # cs) =
     (case span_len a b (c # cs) of
        None \<Rightarrow> c # re_sub_empty (span_pattern a b) cs
      | Some e \<Rightarrow> re_sub_empty (span_pattern a b) (drop e (c # cs)))"
proof (cases "span_len a b (c # cs)")
  case None
  then have "rmatch (span_pattern a b) 0 (c # cs) = None" by (simp add: rmatch_span)
  then have "scan (span_pattern a b) (c # cs) = Skip c # scan (span_pattern a b) cs"
    by (simp only: scan.simps option.case)
  then show ?thesis using None by (simp only: re_sub_empty_def unmatched.simps option.case)
next
  case (Some e)
  then have e: "e \<noteq> 0" using span_len_le [of a b "c # cs" e] by simp
  from Some have "rmatch (span_pattern a b) 0 (c # cs) = Some (e, [])"
    by (simp add: rmatch_span)
  then have "scan (span_pattern a b) (c # cs) =
      Hit (take e (c # cs)) [] # scan (span_pattern a b) (drop e (c # cs))"
    using e by (simp only: scan.simps option.case prod.case if_False)
  then show ?thesis using Some by (simp only: re_sub_empty_def unmatched.simps option.case)
qed

lemma sub_span_prepend:
  "a \<notin> set w \<Longrightarrow>
     re_sub_empty (span_pattern a b) (w @ x) = w @ re_sub_empty (span_pattern a b) x"
proof (induction w)
  case Nil
  then show ?case by simp
next
  case (Cons c w)
  then have "span_len a b (c # w @ x) = None" by (simp add: span_len_def)
  then have "re_sub_empty (span_pattern a b) (c # w @ x) =
     c # re_sub_empty (span_pattern a b) (w @ x)"
    by (simp only: sub_span_Cons option.case)
  then show ?case using Cons by simp
qed

lemma sub_span_no_close:
  "b \<notin> set w \<Longrightarrow> re_sub_empty (span_pattern a b) w = w"
proof (induction w)
  case Nil
  then show ?case by (simp add: sub_span_Nil)
next
  case (Cons c w)
  then have "span_len a b (c # w) = None" by (simp add: span_len_def)
  then have "re_sub_empty (span_pattern a b) (c # w) = c # re_sub_empty (span_pattern a b) w"
    by (simp only: sub_span_Cons option.case)
  then show ?case using Cons by simp
qed

lemma sub_span_append:
  "b \<notin> set w \<Longrightarrow>
     re_sub_empty (span_pattern a b) (x @ w) = re_sub_empty (span_pattern a b) x @ w"
proof (induction x rule: length_induct)
  case (1 x)
  note IH = 1(1) and bw = 1(2)
  show ?case
  proof (cases x)
    case Nil
    then show ?thesis using sub_span_no_close [OF bw] by (simp add: sub_span_Nil)
  next
    case (Cons c cs)
    have eq: "span_len a b (c # cs @ w) = span_len a b (c # cs)"
      using span_len_append [OF bw, of a "c # cs"] by simp
    show ?thesis
    proof (cases "span_len a b (c # cs)")
      case None
      have ih: "re_sub_empty (span_pattern a b) (cs @ w) =
                re_sub_empty (span_pattern a b) cs @ w"
        using IH Cons bw by simp
      have "re_sub_empty (span_pattern a b) (c # cs @ w) =
            c # re_sub_empty (span_pattern a b) (cs @ w)"
        using None eq by (simp only: sub_span_Cons option.case)
      moreover have "re_sub_empty (span_pattern a b) (c # cs) =
            c # re_sub_empty (span_pattern a b) cs"
        using None by (simp only: sub_span_Cons option.case)
      ultimately show ?thesis using ih Cons by simp
    next
      case (Some e)
      then have e: "0 < e" "e \<le> length (c # cs)" using span_len_le by blast+
      then have d: "drop e (c # cs @ w) = drop e (c # cs) @ w" by (cases e) simp_all
      have "length (drop e (c # cs)) < length x" using e Cons by simp
      then have ih: "re_sub_empty (span_pattern a b) (drop e (c # cs) @ w) =
                 re_sub_empty (span_pattern a b) (drop e (c # cs)) @ w"
        using IH bw by blast
      have "re_sub_empty (span_pattern a b) (c # cs @ w) =
            re_sub_empty (span_pattern a b) (drop e (c # cs @ w))"
        using Some eq by (simp only: sub_span_Cons option.case)
      moreover have "re_sub_empty (span_pattern a b) (c # cs) =
            re_sub_empty (span_pattern a b) (drop e (c # cs))"
        using Some by (simp only: sub_span_Cons option.case)
      ultimately show ?thesis using ih d Cons by (simp only: append_Cons)
    qed
  qed
qed

section \<open>Stripping and classification\<close>

lemma space_not_bracket:
  assumes "is_space c"
  shows "c \<noteq> of_char CHR ''{''" "c \<noteq> of_char CHR ''}''"
    "c \<noteq> of_char CHR ''<''" "c \<noteq> of_char CHR ''>''"
  using assms by (auto simp: is_space_def)

lemma space_not_alnum: "is_space c \<Longrightarrow> \<not> atom_ok Alnum c"
  by (auto simp: is_space_def)

lemma strip_decomp:
  "\<exists>w1 w2. s = w1 @ strip s @ w2 \<and> (\<forall>c\<in>set w1. is_space c) \<and> (\<forall>c\<in>set w2. is_space c)"
proof -
  define d where "d = dropWhile is_space s"
  define w1 where "w1 = takeWhile is_space s"
  define w2 where "w2 = rev (takeWhile is_space (rev d))"
  have s: "s = w1 @ d" by (simp add: w1_def d_def)
  have "strip s @ w2 =
        rev (dropWhile is_space (rev d)) @ rev (takeWhile is_space (rev d))"
    by (simp add: strip_def w2_def d_def)
  also have "\<dots> = rev (takeWhile is_space (rev d) @ dropWhile is_space (rev d))"
    by (simp only: rev_append)
  also have "\<dots> = d" by (simp only: takeWhile_dropWhile_id rev_rev_ident)
  finally have d: "d = strip s @ w2" by simp
  have a1: "\<forall>c\<in>set w1. is_space c" unfolding w1_def using set_takeWhileD by fastforce
  have a2: "\<forall>c\<in>set w2. is_space c" unfolding w2_def using set_takeWhileD by fastforce
  have "s = w1 @ strip s @ w2" using s d by simp
  then show ?thesis using a1 a2 by blast
qed

lemma strip_pad:
  assumes w1: "\<forall>c\<in>set w1. is_space c" and w2: "\<forall>c\<in>set w2. is_space c"
  shows "strip (w1 @ y @ w2) = strip y"
proof -
  have d1: "dropWhile is_space (w1 @ y @ w2) = dropWhile is_space (y @ w2)"
    by (rule dropWhile_append2) (use w1 in auto)
  show ?thesis
  proof (cases "\<forall>c\<in>set y. is_space c")
    case True
    then have a: "dropWhile is_space (y @ w2) = []" and b: "dropWhile is_space y = []"
      using w2 by auto
    show ?thesis unfolding strip_def d1 a b by simp
  next
    case False
    then have d2: "dropWhile is_space (y @ w2) = dropWhile is_space y @ w2"
      by (auto simp: dropWhile_append1)
    have "dropWhile is_space (rev w2 @ rev (dropWhile is_space y)) =
          dropWhile is_space (rev (dropWhile is_space y))"
      by (rule dropWhile_append2) (use w2 in auto)
    then show ?thesis using d1 d2 by (simp add: strip_def)
  qed
qed

lemma strip_all_space:
  assumes "\<forall>c\<in>set s. is_space c"
  shows "strip s = []"
proof -
  have a: "dropWhile is_space s = []" using assms by simp
  show ?thesis unfolding strip_def a by simp
qed

lemma cleaned_Nil: "cleaned [] = []"
  by (simp add: cleaned_def brace_span tag_span sub_span_Nil strip_def)

lemma cleaned_strip: "cleaned (strip body) = cleaned body"
proof -
  obtain w1 w2 where b: "body = w1 @ strip body @ w2"
    and w1: "\<forall>c\<in>set w1. is_space c" and w2: "\<forall>c\<in>set w2. is_space c"
    using strip_decomp by blast
  let ?lb = "of_char CHR ''{'' :: nat" and ?rb = "of_char CHR ''}'' :: nat"
  let ?lt = "of_char CHR ''<'' :: nat" and ?gt = "of_char CHR ''>'' :: nat"
  let ?core = "strip body"
  have n1: "?lb \<notin> set w1" "?lt \<notin> set w1" using w1 space_not_bracket by blast+
  have n2: "?rb \<notin> set w2" "?gt \<notin> set w2" using w2 space_not_bracket by blast+
  have "re_sub_empty brace_pattern (w1 @ ?core @ w2) =
        w1 @ re_sub_empty brace_pattern (?core @ w2)"
    unfolding brace_span using n1(1) by (rule sub_span_prepend)
  also have "\<dots> = w1 @ re_sub_empty brace_pattern ?core @ w2"
    unfolding brace_span using sub_span_append [OF n2(1)] by simp
  finally have e1: "re_sub_empty brace_pattern (w1 @ ?core @ w2) =
      w1 @ re_sub_empty brace_pattern ?core @ w2" .
  have "re_sub_empty tag_pattern (w1 @ re_sub_empty brace_pattern ?core @ w2) =
        w1 @ re_sub_empty tag_pattern (re_sub_empty brace_pattern ?core @ w2)"
    unfolding tag_span using n1(2) by (rule sub_span_prepend)
  also have "\<dots> = w1 @ re_sub_empty tag_pattern (re_sub_empty brace_pattern ?core) @ w2"
    unfolding tag_span using sub_span_append [OF n2(2)] by simp
  finally have e2: "re_sub_empty tag_pattern (w1 @ re_sub_empty brace_pattern ?core @ w2) =
      w1 @ re_sub_empty tag_pattern (re_sub_empty brace_pattern ?core) @ w2" .
  have "cleaned (w1 @ ?core @ w2) = cleaned ?core"
    unfolding cleaned_def e1 e2 using w1 w2 by (rule strip_pad)
  then show ?thesis using b by simp
qed

lemma rmatch_star_end: "rmatch [StarG a] k s \<noteq> None"
  by (induction s arbitrary: k) (auto split: option.splits)

lemma alnum_found:
  "(matches_from k (scan alnum_pattern s) \<noteq> []) = (\<exists>c\<in>set s. atom_ok Alnum c)"
proof (induction s arbitrary: k)
  case Nil
  then show ?case by (simp add: alnum_pattern_def)
next
  case (Cons c cs)
  show ?case
  proof (cases "atom_ok Alnum c")
    case True
    then obtain e ms where "rmatch alnum_pattern 0 (c # cs) = Some (e, ms)"
      using rmatch_star_end [of Alnum "Suc 0" cs]
      by (auto simp: alnum_pattern_def simp del: atom_ok.simps)
    then have "matches_from k (scan alnum_pattern (c # cs)) \<noteq> []"
      by (simp del: atom_ok.simps)
    then show ?thesis using True by (simp del: atom_ok.simps)
  next
    case False
    then have "rmatch alnum_pattern 0 (c # cs) = None"
      by (simp add: alnum_pattern_def del: atom_ok.simps)
    then show ?thesis using False Cons.IH [of "Suc k"] by (simp del: atom_ok.simps)
  qed
qed

lemma re_search_alnum: "re_search alnum_pattern s = (\<exists>c\<in>set s. atom_ok Alnum c)"
  by (simp only: re_search_def finditer_def alnum_found)

lemma region_issues_eq:
  "region_issues filepath txt m =
     (if \<exists>c\<in>set (cleaned (group1 m)). atom_ok Alnum c
      then [\<lparr>file = filepath, line = line_num txt m, content = snippet (group0 m)\<rparr>]
      else [])"
proof (cases "strip (group1 m) = []")
  case True
  then have "cleaned (group1 m) = []" using cleaned_strip [of "group1 m"] cleaned_Nil by simp
  then show ?thesis using True by (simp add: region_issues_def del: atom_ok.simps)
next
  case False
  have "(cleaned (group1 m) \<noteq> [] \<and> re_search alnum_pattern (cleaned (group1 m))) =
        (\<exists>c\<in>set (cleaned (group1 m)). atom_ok Alnum c)"
    unfolding re_search_alnum by auto
  then show ?thesis using False
    by (simp add: region_issues_def cleaned_strip Let_def del: atom_ok.simps)
qed

lemma scan_content_mem:
  assumes "i \<in> set (scan_content filepath txt)"
  shows "\<exists>m\<in>set (finditer view_pattern txt).
           (\<exists>c\<in>set (cleaned (group1 m)). atom_ok Alnum c) \<and>
           i = \<lparr>file = filepath, line = line_num txt m, content = snippet (group0 m)\<rparr>"
proof -
  from assms obtain m where m: "m \<in> set (finditer view_pattern txt)"
    and i: "i \<in> set (region_issues filepath txt m)"
    by (auto simp: scan_content_def)
  show ?thesis
  proof (cases "\<exists>c\<in>set (cleaned (group1 m)). atom_ok Alnum c")
    case True
    then have "i = \<lparr>file = filepath, line = line_num txt m, content = snippet (group0 m)\<rparr>"
      using i by (simp add: region_issues_eq del: atom_ok.simps)
    then show ?thesis using m True by blast
  next
    case False
    then have "region_issues filepath txt m = []"
      by (simp add: region_issues_eq del: atom_ok.simps)
    then show ?thesis using i by simp
  qed
qed

lemma hit_texts_mem: "t \<in> set (hit_texts ps) \<Longrightarrow> \<exists>ms. Hit t ms \<in> set ps"
  by (induction ps rule: hit_texts.induct) auto

lemma find_sub_append:
  "find_sub w s = Some j \<Longrightarrow> find_sub w (s @ t) = Some j"
proof (induction s arbitrary: j)
  case Nil
  then show ?case by (cases t) (simp_all split: if_splits)
next
  case (Cons c cs)
  show ?case
  proof (cases "prefix w (c # cs)")
    case True
    then have "prefix w (c # cs @ t)" using prefix_prefix [of w "c # cs" t] by simp
    then show ?thesis using Cons.prems True by simp
  next
    case False
    then obtain j' where j': "find_sub w cs = Some j'" "j = Suc j'"
      using Cons.prems by auto
    from find_sub_SomeD [OF j'(1)] obtain body rest where "cs = body @ w @ rest" by blast
    then have len: "length w \<le> length (c # cs)" by simp
    have "\<not> prefix w (c # cs @ t)"
    proof
      assume p: "prefix w (c # cs @ t)"
      have "prefix (c # cs) (c # cs @ t)" by simp
      from prefix_length_prefix [OF p this len] show False using False by simp
    qed
    then show ?thesis using Cons.IH [OF j'(1)] j' by simp
  qed
qed

lemma view_match_first:
  assumes na: "of_char CHR ''>'' \<notin> set attrs"
    and fs: "find_sub (ustr ''</View>'') (body @ ustr ''</View>'') = Some (length body)"
  shows "view_match
           (ustr ''<View'' @ attrs @ [of_char CHR ''>''] @ body @ ustr ''</View>'' @ rest) =
         Some (6 + length attrs, 6 + length attrs + length body)"
proof -
  let ?gt = "of_char CHR ''>'' :: nat"
  let ?P = "\<lambda>x. x \<noteq> ?gt"
  let ?s = "ustr ''<View'' @ attrs @ [?gt] @ body @ ustr ''</View>'' @ rest"
  have pre: "prefix (ustr ''<View'') ?s" by simp
  have d5: "drop 5 ?s = attrs @ ?gt # (body @ ustr ''</View>'' @ rest)"
    using ustr_lens(1) by simp
  have all: "\<And>x. x \<in> set attrs \<Longrightarrow> ?P x" using na by auto
  have dw: "dropWhile ?P (drop 5 ?s) = ?gt # (body @ ustr ''</View>'' @ rest)"
    unfolding d5 using dropWhile_append2 [of attrs ?P] all by simp
  have tw: "takeWhile ?P (drop 5 ?s) = attrs"
    unfolding d5 using takeWhile_append2 [of attrs ?P] all by simp
  have f: "find_sub (ustr ''</View>'') (body @ ustr ''</View>'' @ rest) = Some (length body)"
    using find_sub_append [OF fs, of rest] by simp
  show ?thesis
    unfolding view_match_def using pre
    by (simp only: if_True dw tw f list.case option.case)
qed

lemma first_region:
  assumes na: "of_char CHR ''>'' \<notin> set attrs"
    and fs: "find_sub (ustr ''</View>'') (body @ ustr ''</View>'') = Some (length body)"
    and g: "g = ustr ''<View'' @ attrs @ [of_char CHR ''>''] @ body @ ustr ''</View>''"
  shows "finditer view_pattern (g @ rest) =
           \<lparr>m_start = 0, group0 = g,
             m_marks = [6 + length attrs, 6 + length attrs + length body]\<rparr> #
           matches_from (length g) (scan view_pattern rest)"
proof -
  have vm: "view_match (g @ rest) = Some (6 + length attrs, 6 + length attrs + length body)"
    using view_match_first [OF na fs, of rest] g by simp
  have lg: "length g = 6 + length attrs + length body + 7"
    using g ustr_lens by simp
  have rm: "rmatch view_pattern 0 (g @ rest) =
      Some (length g, [6 + length attrs, 6 + length attrs + length body])"
    unfolding rmatch_view vm lg by simp
  obtain c cs where cs: "g @ rest = c # cs"
    using g by (cases "g @ rest") (simp_all add: ustr_def)
  have ne: "length g \<noteq> 0" using lg by simp
  have "scan view_pattern (c # cs) =
      Hit (take (length g) (c # cs)) [6 + length attrs, 6 + length attrs + length body] #
      scan view_pattern (drop (length g) (c # cs))"
    using rm ne unfolding cs by (simp only: scan.simps option.case prod.case if_False)
  then have "scan view_pattern (g @ rest) =
      Hit g [6 + length attrs, 6 + length attrs + length body] # scan view_pattern rest"
    unfolding cs [symmetric] by simp
  then show ?thesis by (simp add: finditer_def)
qed

lemma region_cover:
  assumes "drop p txt =
      ustr ''<View'' @ attrs @ [of_char CHR ''>''] @ body @ ustr ''</View>'' @ rest"
    and "of_char CHR ''>'' \<notin> set attrs"
  shows "\<exists>m\<in>set (finditer view_pattern txt).
           m_start m \<le> p \<and> p < m_start m + length (group0 m)"
proof -
  have "view_match (drop p txt) \<noteq> None" using view_match_occurs [OF assms] .
  then have rm: "rmatch view_pattern 0 (drop p txt) \<noteq> None"
    by (auto simp: rmatch_view)
  have ne: "\<forall>s e ms. rmatch view_pattern 0 s = Some (e, ms) \<longrightarrow> 0 < e"
    using view_nonempty by blast
  from scan_cover [OF ne rm, of 0] show ?thesis by (simp add: finditer_def)
qed

section \<open>The walk as a whole\<close>

lemma scan_file_eq:
  "scan_file fs out p st =
     st\<lparr>issues := issues st @ path_issues fs p,
        printed := printed st @ path_prints fs out p,
        opened := opened st @ [p],
        raised := (case stop_error fs out p of None \<Rightarrow> raised st | Some x \<Rightarrow> Some x)\<rparr>"
proof (cases "fs p")
  case (Inl e)
  then show ?thesis
    by (cases "out (diagnostic p e)")
       (simp_all add: scan_file_def path_issues_def path_prints_def stop_error_def)
next
  case (Inr t)
  then show ?thesis
    by (simp add: scan_file_def path_issues_def path_prints_def stop_error_def)
qed

lemma stop_issues: "stop_error fs out p = Some x \<Longrightarrow> path_issues fs p = []"
  by (cases "fs p") (simp_all add: stop_error_def path_issues_def)

lemma stop_prints: "stop_error fs out p = Some x \<Longrightarrow> path_prints fs out p = []"
  by (cases "fs p") (simp_all add: stop_error_def path_prints_def)

lemma run_paths_eq:
  "raised st = None \<Longrightarrow>
   run_paths fs out ps st =
     st\<lparr>issues := issues st @ concat (map (path_issues fs) (reached fs out ps)),
        printed := printed st @ concat (map (path_prints fs out) (reached fs out ps)),
        opened := opened st @ reached fs out ps,
        raised := first_raise fs out ps\<rparr>"
proof (induction ps arbitrary: st)
  case Nil
  then show ?case by simp
next
  case (Cons p ps)
  show ?case
  proof (cases "stop_error fs out p")
    case None
    then have r: "raised (scan_file fs out p st) = None"
      using Cons.prems by (simp add: scan_file_eq)
    show ?thesis using None r Cons.IH [OF r] by (simp add: scan_file_eq)
  next
    case (Some x)
    then have r: "raised (scan_file fs out p st) = Some x" by (simp add: scan_file_eq)
    show ?thesis using Some r by (simp add: scan_file_eq stop_issues stop_prints)
  qed
qed

lemma scan_files_run:
  "scan_files fs out root files st =
     run_paths fs out (map (join root) (filter selected files)) st"
  by (induction files arbitrary: st) (simp_all split: option.splits)

lemma reached_append:
  "reached fs out (a @ b) =
     (case first_raise fs out a of None \<Rightarrow> a @ reached fs out b | Some x \<Rightarrow> reached fs out a)"
  by (induction a) (simp_all split: option.splits)

lemma first_raise_append:
  "first_raise fs out (a @ b) =
     (case first_raise fs out a of None \<Rightarrow> first_raise fs out b | Some x \<Rightarrow> Some x)"
  by (induction a) (simp_all split: option.splits)

lemma reached_all: "first_raise fs out a = None \<Longrightarrow> reached fs out a = a"
  by (induction a) (simp_all split: option.splits)

lemma reached_subset: "set (reached fs out ps) \<subseteq> set ps"
  by (induction ps) (auto split: option.splits)

lemma walk_loop_eq:
  "raised st = None \<Longrightarrow>
   walk_loop fs out w st =
     st\<lparr>issues := issues st @ concat (map (path_issues fs) (reached fs out (scan_paths w))),
        printed := printed st @
          concat (map (path_prints fs out) (reached fs out (scan_paths w))),
        opened := opened st @ reached fs out (scan_paths w),
        raised := first_raise fs out (scan_paths w)\<rparr>"
proof (induction w arbitrary: st)
  case Nil
  then show ?case by simp
next
  case (Cons x w)
  obtain root dirs files where x: "x = (root, dirs, files)" by (cases x)
  show ?case
  proof (cases "excluded root")
    case True
    then show ?thesis unfolding x using Cons.IH [OF Cons.prems] by simp
  next
    case False
    define ps where "ps = map (join root) (filter selected files)"
    have sf: "scan_files fs out root files st =
      st\<lparr>issues := issues st @ concat (map (path_issues fs) (reached fs out ps)),
        printed := printed st @ concat (map (path_prints fs out) (reached fs out ps)),
        opened := opened st @ reached fs out ps,
        raised := first_raise fs out ps\<rparr>"
      unfolding scan_files_run ps_def [symmetric] using Cons.prems by (rule run_paths_eq)
    have sp: "scan_paths (x # w) = ps @ scan_paths w"
      unfolding x ps_def using False by simp
    show ?thesis
    proof (cases "first_raise fs out ps")
      case None
      have r: "raised (scan_files fs out root files st) = None" unfolding sf using None by simp
      have "walk_loop fs out (x # w) st = walk_loop fs out w (scan_files fs out root files st)"
        unfolding x using False r by simp
      also have "\<dots> = (scan_files fs out root files st)
        \<lparr>issues := issues (scan_files fs out root files st) @
            concat (map (path_issues fs) (reached fs out (scan_paths w))),
         printed := printed (scan_files fs out root files st) @
            concat (map (path_prints fs out) (reached fs out (scan_paths w))),
         opened := opened (scan_files fs out root files st) @ reached fs out (scan_paths w),
         raised := first_raise fs out (scan_paths w)\<rparr>"
        by (rule Cons.IH [OF r])
      finally show ?thesis
        unfolding sp sf by (simp add: reached_append first_raise_append None reached_all)
    next
      case (Some e)
      have r: "raised (scan_files fs out root files st) = Some e" unfolding sf using Some by simp
      have "walk_loop fs out (x # w) st = scan_files fs out root files st"
        unfolding x using False r by simp
      then show ?thesis
        unfolding sp sf by (simp add: reached_append first_raise_append Some)
    qed
  qed
qed

lemma find_text_in_views_eq:
  "find_text_in_views fs out w =
     \<lparr>issues = concat (map (path_issues fs) (reached fs out (scan_paths w))),
      printed = concat (map (path_prints fs out) (reached fs out (scan_paths w))),
      opened = reached fs out (scan_paths w),
      raised = first_raise fs out (scan_paths w)\<rparr>"
  by (simp add: find_text_in_views_def walk_loop_eq)

lemma scan_paths_append: "scan_paths (w1 @ w2) = scan_paths w1 @ scan_paths w2"
  by (induction w1) auto

lemma scan_paths_mem:
  "p \<in> set (scan_paths w) \<Longrightarrow>
     \<exists>root dirs files f. (root, dirs, files) \<in> set w \<and> \<not> excluded root \<and>
        f \<in> set files \<and> selected f \<and> p = join root f"
proof (induction w)
  case Nil
  then show ?case by simp
next
  case (Cons x w)
  obtain root dirs files where x: "x = (root, dirs, files)" by (cases x)
  show ?case
  proof (cases "p \<in> set (scan_paths w)")
    case True
    then show ?thesis using Cons.IH by fastforce
  next
    case False
    then have "\<not> excluded root" "p \<in> set (map (join root) (filter selected files))"
      using Cons.prems x by (auto split: if_splits)
    then obtain f where "f \<in> set files" "selected f" "p = join root f" by auto
    then show ?thesis using x \<open>\<not> excluded root\<close> by fastforce
  qed
qed

lemma path_issues_file:
  assumes "i \<in> set (path_issues fs p)"
  shows "file i = p"
proof -
  from assms obtain t where "i \<in> set (scan_content p t)"
    by (cases "fs p") (auto simp: path_issues_def)
  from scan_content_mem [OF this] show ?thesis by auto
qed

section \<open>Classification of a region\<close>

text \<open>
  C1. For every region \<open>m\<close> that \<open>finditer\<close> extracts from a file's text: if the body
  of the region (group 1), after every brace span and then every tag span is removed and
  the ends are stripped of whitespace, still holds a character of \<open>[a-zA-Z0-9]\<close>, then
  the loop body produces exactly one issue for the region, and that issue is among the
  issues of the file. The issue carries the file's path; its line is 1 plus the number
  of newline characters in \<open>pre\<close>, the text of the file before the region's start
  offset; its content is the matched text, or the first 100 characters of it followed
  by three dots when it is longer than 100 characters. The claim's stripped body is
  \<open>cleaned (group1 m)\<close>, taken on the body as matched; the script first strips the
  body and cleans the result, which gives the same text (\<open>cleaned_strip\<close>).
\<close>

theorem text_region_one_issue:
  assumes "m \<in> set (finditer view_pattern txt)"
    and "\<exists>c\<in>set (cleaned (group1 m)). atom_ok Alnum c"
  shows "\<exists>pre rest.
           txt = pre @ group0 m @ rest \<and> length pre = m_start m \<and>
           region_issues filepath txt m =
             [\<lparr>file = filepath, line = 1 + int (count_list pre newline),
               content =
                 (if 100 < length (group0 m) then take 100 (group0 m) @ ustr ''...''
                  else group0 m)\<rparr>] \<and>
           \<lparr>file = filepath, line = 1 + int (count_list pre newline),
             content =
               (if 100 < length (group0 m) then take 100 (group0 m) @ ustr ''...''
                else group0 m)\<rparr>
             \<in> set (scan_content filepath txt)"
proof -
  from finditer_position [OF assms(1)] obtain pre rest where
    t: "txt = pre @ group0 m @ rest" and l: "length pre = m_start m" by blast
  have tk: "take (m_start m) txt = pre" using t l by simp
  have r: "region_issues filepath txt m =
      [\<lparr>file = filepath, line = 1 + int (count_list pre newline),
        content =
          (if 100 < length (group0 m) then take 100 (group0 m) @ ustr ''...''
           else group0 m)\<rparr>]"
    using assms(2) by (simp add: region_issues_eq line_num_def snippet_def tk del: atom_ok.simps)
  then have "\<lparr>file = filepath, line = 1 + int (count_list pre newline),
      content =
        (if 100 < length (group0 m) then take 100 (group0 m) @ ustr ''...''
         else group0 m)\<rparr> \<in> set (region_issues filepath txt m)" by simp
  then have "\<lparr>file = filepath, line = 1 + int (count_list pre newline),
      content =
        (if 100 < length (group0 m) then take 100 (group0 m) @ ustr ''...''
         else group0 m)\<rparr> \<in> set (scan_content filepath txt)"
    using assms(1) unfolding scan_content_def by auto
  then show ?thesis using t l r by blast
qed

theorem text_region_one_issue_witness:
  "\<lparr>m_start = 2, group0 = ustr ''<View>bbbbbbbbbbbbbbbbbbbbbbbbbbbbbbbbbbbbbbbbbbbbbbbbbbbbbbbbbbbbbbbbbbbbbbbbbbbbbbbbbbbbbbbbbbbbbbbbbbbb</View>'', m_marks = [6, 106]\<rparr> \<in> set (finditer view_pattern ([newline, newline] @ ustr ''<View>bbbbbbbbbbbbbbbbbbbbbbbbbbbbbbbbbbbbbbbbbbbbbbbbbbbbbbbbbbbbbbbbbbbbbbbbbbbbbbbbbbbbbbbbbbbbbbbbbbbb</View>'')) \<and>
   (\<exists>c\<in>set (cleaned (group1 \<lparr>m_start = 2, group0 = ustr ''<View>bbbbbbbbbbbbbbbbbbbbbbbbbbbbbbbbbbbbbbbbbbbbbbbbbbbbbbbbbbbbbbbbbbbbbbbbbbbbbbbbbbbbbbbbbbbbbbbbbbbb</View>'', m_marks = [6, 106]\<rparr>)). atom_ok Alnum c) \<and>
   (\<exists>pre rest.
      [newline, newline] @ ustr ''<View>bbbbbbbbbbbbbbbbbbbbbbbbbbbbbbbbbbbbbbbbbbbbbbbbbbbbbbbbbbbbbbbbbbbbbbbbbbbbbbbbbbbbbbbbbbbbbbbbbbbb</View>'' = pre @ group0 \<lparr>m_start = 2, group0 = ustr ''<View>bbbbbbbbbbbbbbbbbbbbbbbbbbbbbbbbbbbbbbbbbbbbbbbbbbbbbbbbbbbbbbbbbbbbbbbbbbbbbbbbbbbbbbbbbbbbbbbbbbbb</View>'', m_marks = [6, 106]\<rparr> @ rest \<and> length pre = m_start \<lparr>m_start = 2, group0 = ustr ''<View>bbbbbbbbbbbbbbbbbbbbbbbbbbbbbbbbbbbbbbbbbbbbbbbbbbbbbbbbbbbbbbbbbbbbbbbbbbbbbbbbbbbbbbbbbbbbbbbbbbbb</View>'', m_marks = [6, 106]\<rparr> \<and>
      region_issues (ustr ''App.tsx'') ([newline, newline] @ ustr ''<View>bbbbbbbbbbbbbbbbbbbbbbbbbbbbbbbbbbbbbbbbbbbbbbbbbbbbbbbbbbbbbbbbbbbbbbbbbbbbbbbbbbbbbbbbbbbbbbbbbbbb</View>'') \<lparr>m_start = 2, group0 = ustr ''<View>bbbbbbbbbbbbbbbbbbbbbbbbbbbbbbbbbbbbbbbbbbbbbbbbbbbbbbbbbbbbbbbbbbbbbbbbbbbbbbbbbbbbbbbbbbbbbbbbbbbb</View>'', m_marks = [6, 106]\<rparr> =
        [\<lparr>file = ustr ''App.tsx'', line = 1 + int (count_list pre newline),
          content =
            (if 100 < length (group0 \<lparr>m_start = 2, group0 = ustr ''<View>bbbbbbbbbbbbbbbbbbbbbbbbbbbbbbbbbbbbbbbbbbbbbbbbbbbbbbbbbbbbbbbbbbbbbbbbbbbbbbbbbbbbbbbbbbbbbbbbbbbb</View>'', m_marks = [6, 106]\<rparr>) then take 100 (group0 \<lparr>m_start = 2, group0 = ustr ''<View>bbbbbbbbbbbbbbbbbbbbbbbbbbbbbbbbbbbbbbbbbbbbbbbbbbbbbbbbbbbbbbbbbbbbbbbbbbbbbbbbbbbbbbbbbbbbbbbbbbbb</View>'', m_marks = [6, 106]\<rparr>) @ ustr ''...''
             else group0 \<lparr>m_start = 2, group0 = ustr ''<View>bbbbbbbbbbbbbbbbbbbbbbbbbbbbbbbbbbbbbbbbbbbbbbbbbbbbbbbbbbbbbbbbbbbbbbbbbbbbbbbbbbbbbbbbbbbbbbbbbbbb</View>'', m_marks = [6, 106]\<rparr>)\<rparr>] \<and>
      \<lparr>file = ustr ''App.tsx'', line = 1 + int (count_list pre newline),
        content =
          (if 100 < length (group0 \<lparr>m_start = 2, group0 = ustr ''<View>bbbbbbbbbbbbbbbbbbbbbbbbbbbbbbbbbbbbbbbbbbbbbbbbbbbbbbbbbbbbbbbbbbbbbbbbbbbbbbbbbbbbbbbbbbbbbbbbbbbb</View>'', m_marks = [6, 106]\<rparr>) then take 100 (group0 \<lparr>m_start = 2, group0 = ustr ''<View>bbbbbbbbbbbbbbbbbbbbbbbbbbbbbbbbbbbbbbbbbbbbbbbbbbbbbbbbbbbbbbbbbbbbbbbbbbbbbbbbbbbbbbbbbbbbbbbbbbbb</View>'', m_marks = [6, 106]\<rparr>) @ ustr ''...''
           else group0 \<lparr>m_start = 2, group0 = ustr ''<View>bbbbbbbbbbbbbbbbbbbbbbbbbbbbbbbbbbbbbbbbbbbbbbbbbbbbbbbbbbbbbbbbbbbbbbbbbbbbbbbbbbbbbbbbbbbbbbbbbbbb</View>'', m_marks = [6, 106]\<rparr>)\<rparr>
        \<in> set (scan_content (ustr ''App.tsx'') ([newline, newline] @ ustr ''<View>bbbbbbbbbbbbbbbbbbbbbbbbbbbbbbbbbbbbbbbbbbbbbbbbbbbbbbbbbbbbbbbbbbbbbbbbbbbbbbbbbbbbbbbbbbbbbbbbbbbb</View>''))) \<and>
   region_issues (ustr ''App.tsx'') ([newline, newline] @ ustr ''<View>bbbbbbbbbbbbbbbbbbbbbbbbbbbbbbbbbbbbbbbbbbbbbbbbbbbbbbbbbbbbbbbbbbbbbbbbbbbbbbbbbbbbbbbbbbbbbbbbbbbb</View>'') \<lparr>m_start = 2, group0 = ustr ''<View>bbbbbbbbbbbbbbbbbbbbbbbbbbbbbbbbbbbbbbbbbbbbbbbbbbbbbbbbbbbbbbbbbbbbbbbbbbbbbbbbbbbbbbbbbbbbbbbbbbbb</View>'', m_marks = [6, 106]\<rparr> = [\<lparr>file = ustr ''App.tsx'', line = 3, content = ustr ''<View>bbbbbbbbbbbbbbbbbbbbbbbbbbbbbbbbbbbbbbbbbbbbbbbbbbbbbbbbbbbbbbbbbbbbbbbbbbbbbbbbbbbbbbbbbbbbbb...''\<rparr>] \<and>
   scan_content (ustr ''App.tsx'') ([newline, newline] @ ustr ''<View>bbbbbbbbbbbbbbbbbbbbbbbbbbbbbbbbbbbbbbbbbbbbbbbbbbbbbbbbbbbbbbbbbbbbbbbbbbbbbbbbbbbbbbbbbbbbbbbbbbbb</View>'') = [\<lparr>file = ustr ''App.tsx'', line = 3, content = ustr ''<View>bbbbbbbbbbbbbbbbbbbbbbbbbbbbbbbbbbbbbbbbbbbbbbbbbbbbbbbbbbbbbbbbbbbbbbbbbbbbbbbbbbbbbbbbbbbbbb...''\<rparr>]"
proof -
  have h1: "\<lparr>m_start = 2, group0 = ustr ''<View>bbbbbbbbbbbbbbbbbbbbbbbbbbbbbbbbbbbbbbbbbbbbbbbbbbbbbbbbbbbbbbbbbbbbbbbbbbbbbbbbbbbbbbbbbbbbbbbbbbbb</View>'', m_marks = [6, 106]\<rparr> \<in> set (finditer view_pattern ([newline, newline] @ ustr ''<View>bbbbbbbbbbbbbbbbbbbbbbbbbbbbbbbbbbbbbbbbbbbbbbbbbbbbbbbbbbbbbbbbbbbbbbbbbbbbbbbbbbbbbbbbbbbbbbbbbbbb</View>''))"
    by (simp add: eval_defs)
  have h2: "\<exists>c\<in>set (cleaned (group1 \<lparr>m_start = 2, group0 = ustr ''<View>bbbbbbbbbbbbbbbbbbbbbbbbbbbbbbbbbbbbbbbbbbbbbbbbbbbbbbbbbbbbbbbbbbbbbbbbbbbbbbbbbbbbbbbbbbbbbbbbbbbb</View>'', m_marks = [6, 106]\<rparr>)). atom_ok Alnum c"
    by (simp add: eval_defs)
  have e1: "region_issues (ustr ''App.tsx'') ([newline, newline] @ ustr ''<View>bbbbbbbbbbbbbbbbbbbbbbbbbbbbbbbbbbbbbbbbbbbbbbbbbbbbbbbbbbbbbbbbbbbbbbbbbbbbbbbbbbbbbbbbbbbbbbbbbbbb</View>'') \<lparr>m_start = 2, group0 = ustr ''<View>bbbbbbbbbbbbbbbbbbbbbbbbbbbbbbbbbbbbbbbbbbbbbbbbbbbbbbbbbbbbbbbbbbbbbbbbbbbbbbbbbbbbbbbbbbbbbbbbbbbb</View>'', m_marks = [6, 106]\<rparr> = [\<lparr>file = ustr ''App.tsx'', line = 3, content = ustr ''<View>bbbbbbbbbbbbbbbbbbbbbbbbbbbbbbbbbbbbbbbbbbbbbbbbbbbbbbbbbbbbbbbbbbbbbbbbbbbbbbbbbbbbbbbbbbbbbb...''\<rparr>]"
    by (simp add: eval_defs)
  have e2: "scan_content (ustr ''App.tsx'') ([newline, newline] @ ustr ''<View>bbbbbbbbbbbbbbbbbbbbbbbbbbbbbbbbbbbbbbbbbbbbbbbbbbbbbbbbbbbbbbbbbbbbbbbbbbbbbbbbbbbbbbbbbbbbbbbbbbbb</View>'') = [\<lparr>file = ustr ''App.tsx'', line = 3, content = ustr ''<View>bbbbbbbbbbbbbbbbbbbbbbbbbbbbbbbbbbbbbbbbbbbbbbbbbbbbbbbbbbbbbbbbbbbbbbbbbbbbbbbbbbbbbbbbbbbbbb...''\<rparr>]"
    by (simp add: eval_defs)
  from text_region_one_issue [OF h1 h2, of "ustr ''App.tsx''"] h1 h2 e1 e2
  show ?thesis by (intro conjI)
qed

text \<open>
  C2. For every extracted region whose body is empty or holds only whitespace, the loop
  body produces no issue.
\<close>

theorem blank_region_no_issue:
  assumes "m \<in> set (finditer view_pattern txt)"
    and "\<forall>c\<in>set (group1 m). is_space c"
  shows "region_issues filepath txt m = []"
  using strip_all_space [OF assms(2)] by (simp add: region_issues_def)

theorem blank_region_no_issue_witness:
  "\<lparr>m_start = 0, group0 = ustr ''<View>   </View>'', m_marks = [6, 9]\<rparr>
     \<in> set (finditer view_pattern (ustr ''<View>   </View>'')) \<and>
   group1 \<lparr>m_start = 0, group0 = ustr ''<View>   </View>'', m_marks = [6, 9]\<rparr> =
     ustr ''   '' \<and>
   region_issues (ustr ''App.tsx'') (ustr ''<View>   </View>'')
     \<lparr>m_start = 0, group0 = ustr ''<View>   </View>'', m_marks = [6, 9]\<rparr> = [] \<and>
   scan_content (ustr ''App.tsx'') (ustr ''<View>   </View>'') = []"
proof -
  let ?m = "\<lparr>m_start = 0, group0 = ustr ''<View>   </View>'', m_marks = [6, 9]\<rparr>"
  have h1: "?m \<in> set (finditer view_pattern (ustr ''<View>   </View>''))"
    by (simp add: eval_defs)
  have h2: "\<forall>c\<in>set (group1 ?m). is_space c"
    by (simp add: eval_defs)
  have e: "scan_content (ustr ''App.tsx'') (ustr ''<View>   </View>'') = []"
    by (simp add: eval_defs)
  have g: "group1 ?m = ustr ''   ''"
    by (simp add: eval_defs)
  from blank_region_no_issue [OF h1 h2, of "ustr ''App.tsx''"] h1 g e
  show ?thesis by simp
qed

section \<open>The spans removed by the brace pattern\<close>

text \<open>
  C3, as stated, fails: the class \<open>[^}]\<close> accepts a line break, so the span removed
  from a brace expression written over two lines is the whole expression, line break
  included.
\<close>

theorem brace_span_crosses_line_break:
  "removed_spans brace_pattern (ustr ''{a'' @ [newline] @ ustr ''b}'') =
     [ustr ''{a'' @ [newline] @ ustr ''b}''] \<and>
   newline \<in> set (ustr ''{a'' @ [newline] @ ustr ''b}'') \<and>
   re_sub_empty brace_pattern (ustr ''{a'' @ [newline] @ ustr ''b}'') = []"
  by (simp add: eval_defs)

text \<open>
  C3, amended. Every span that the brace pattern removes starts with an opening brace,
  ends with the first closing brace behind it, and holds no closing brace in between:
  it is the shortest span from its opening brace to a closing one, and it is not
  confined to one line.
\<close>

theorem brace_span_shape:
  assumes "t \<in> set (removed_spans brace_pattern s)"
  shows "\<exists>mid. t = [of_char CHR ''{''] @ mid @ [of_char CHR ''}''] \<and>
           of_char CHR ''}'' \<notin> set mid"
proof -
  let ?a = "of_char CHR ''{'' :: nat" and ?b = "of_char CHR ''}'' :: nat"
  from assms obtain ms where "Hit t ms \<in> set (scan brace_pattern s)"
    using hit_texts_mem by (auto simp: removed_spans_def)
  from scan_hit [OF this] obtain s' where
    rm: "rmatch brace_pattern 0 s' = Some (length t, ms)" and pf: "prefix t s'" by blast
  from rm have sl: "span_len ?a ?b s' = Some (length t)"
    unfolding brace_span rmatch_span by (cases "span_len ?a ?b s'") simp_all
  from span_len_SomeD [OF sl] obtain mid rest where
    s': "s' = [?a] @ mid @ [?b] @ rest" and nb: "?b \<notin> set mid"
    and len: "length t = length mid + 2" by blast
  have "t = take (length t) s'" using pf by (metis append_eq_conv_conj prefix_def)
  also have "\<dots> = [?a] @ mid @ [?b]" unfolding len s' by simp
  finally show ?thesis using nb by blast
qed

theorem brace_span_shape_witness:
  "ustr ''{a'' @ [newline] @ ustr ''b}'' \<in>
     set (removed_spans brace_pattern (ustr ''x{a'' @ [newline] @ ustr ''b}y'')) \<and>
   (\<exists>mid. ustr ''{a'' @ [newline] @ ustr ''b}'' =
        [of_char CHR ''{''] @ mid @ [of_char CHR ''}''] \<and> of_char CHR ''}'' \<notin> set mid)"
proof -
  have h: "ustr ''{a'' @ [newline] @ ustr ''b}'' \<in>
     set (removed_spans brace_pattern (ustr ''x{a'' @ [newline] @ ustr ''b}y''))"
    by (simp add: eval_defs)
  from brace_span_shape [OF h] h show ?thesis by blast
qed

section \<open>Line numbers and snippets\<close>

text \<open>
  C7. For every region \<open>m\<close> that \<open>finditer\<close> extracts from a file's text and every
  issue \<open>i\<close> that the loop body produces for that region: the text is
  \<open>pre @ group0 m @ rest\<close> with \<open>pre\<close> as long as the region's start offset, and
  the line of \<open>i\<close> is 1 plus the number of newline characters in \<open>pre\<close>. The issues of
  a file are the issues of its regions, in order (\<open>scan_content_def\<close>).
\<close>

theorem issue_line_number:
  assumes "m \<in> set (finditer view_pattern txt)"
    and "i \<in> set (region_issues filepath txt m)"
  shows "\<exists>pre rest.
           txt = pre @ group0 m @ rest \<and> length pre = m_start m \<and>
           line i = 1 + int (count_list pre newline)"
proof -
  from finditer_position [OF assms(1)] obtain pre rest where
    t: "txt = pre @ group0 m @ rest" and l: "length pre = m_start m" by blast
  have tk: "take (m_start m) txt = pre" using t l by simp
  have "i = \<lparr>file = filepath, line = line_num txt m, content = snippet (group0 m)\<rparr>"
    using assms(2) by (simp add: region_issues_eq del: atom_ok.simps split: if_splits)
  then have "line i = 1 + int (count_list pre newline)"
    by (simp add: line_num_def tk)
  then show ?thesis using t l by blast
qed

theorem issue_line_number_witness:
  "\<lparr>m_start = 15, group0 = ustr ''<View>a</View>'', m_marks = [6, 7]\<rparr> \<in> set (finditer view_pattern (ustr ''<View>a</View>'' @ [newline] @ ustr ''<View>a</View>'')) \<and>
   \<lparr>file = ustr ''App.tsx'', line = 2, content = ustr ''<View>a</View>''\<rparr> \<in> set (region_issues (ustr ''App.tsx'') (ustr ''<View>a</View>'' @ [newline] @ ustr ''<View>a</View>'') \<lparr>m_start = 15, group0 = ustr ''<View>a</View>'', m_marks = [6, 7]\<rparr>) \<and>
   scan_content (ustr ''App.tsx'') (ustr ''<View>a</View>'' @ [newline] @ ustr ''<View>a</View>'') =
     [\<lparr>file = ustr ''App.tsx'', line = 1, content = ustr ''<View>a</View>''\<rparr>, \<lparr>file = ustr ''App.tsx'', line = 2, content = ustr ''<View>a</View>''\<rparr>] \<and>
   (\<exists>pre rest.
      ustr ''<View>a</View>'' @ [newline] @ ustr ''<View>a</View>'' = pre @ group0 \<lparr>m_start = 15, group0 = ustr ''<View>a</View>'', m_marks = [6, 7]\<rparr> @ rest \<and> length pre = m_start \<lparr>m_start = 15, group0 = ustr ''<View>a</View>'', m_marks = [6, 7]\<rparr> \<and>
      line \<lparr>file = ustr ''App.tsx'', line = 2, content = ustr ''<View>a</View>''\<rparr> = 1 + int (count_list pre newline))"
proof -
  have h1: "\<lparr>m_start = 15, group0 = ustr ''<View>a</View>'', m_marks = [6, 7]\<rparr> \<in> set (finditer view_pattern (ustr ''<View>a</View>'' @ [newline] @ ustr ''<View>a</View>''))"
    by (simp add: eval_defs)
  have h2: "\<lparr>file = ustr ''App.tsx'', line = 2, content = ustr ''<View>a</View>''\<rparr> \<in> set (region_issues (ustr ''App.tsx'') (ustr ''<View>a</View>'' @ [newline] @ ustr ''<View>a</View>'') \<lparr>m_start = 15, group0 = ustr ''<View>a</View>'', m_marks = [6, 7]\<rparr>)"
    by (simp add: eval_defs)
  have e: "scan_content (ustr ''App.tsx'') (ustr ''<View>a</View>'' @ [newline] @ ustr ''<View>a</View>'') =
     [\<lparr>file = ustr ''App.tsx'', line = 1, content = ustr ''<View>a</View>''\<rparr>, \<lparr>file = ustr ''App.tsx'', line = 2, content = ustr ''<View>a</View>''\<rparr>]"
    by (simp add: eval_defs)
  from issue_line_number [OF h1 h2] h1 h2 e show ?thesis by (intro conjI)
qed

text \<open>
  C8. For every region \<open>m\<close> that \<open>finditer\<close> extracts from a file's text and every
  issue \<open>i\<close> that the loop body produces for that region: when the matched text
  \<open>group0 m\<close> is longer than 100 characters, the content of \<open>i\<close> is its first 100
  characters followed by three dots; otherwise it is the matched text itself. The
  matched text is the part of the file at the region's offset, from the opening
  \<open><View\<close> to the closing \<open></View>\<close>, nothing stripped from it.
\<close>

theorem issue_snippet:
  assumes "m \<in> set (finditer view_pattern txt)"
    and "i \<in> set (region_issues filepath txt m)"
  shows "content i =
           (if 100 < length (group0 m) then take 100 (group0 m) @ ustr ''...''
            else group0 m) \<and>
         (\<exists>pre rest. txt = pre @ group0 m @ rest \<and> length pre = m_start m) \<and>
         prefix (ustr ''<View'') (group0 m) \<and> suffix (ustr ''</View>'') (group0 m)"
proof -
  have "i = \<lparr>file = filepath, line = line_num txt m, content = snippet (group0 m)\<rparr>"
    using assms(2) by (simp add: region_issues_eq del: atom_ok.simps split: if_splits)
  then have c: "content i =
      (if 100 < length (group0 m) then take 100 (group0 m) @ ustr ''...'' else group0 m)"
    by (simp add: snippet_def)
  from region_structure [OF assms(1)] obtain attrs body where
    g: "group0 m = ustr ''<View'' @ attrs @ [of_char CHR ''>''] @ body @ ustr ''</View>''"
    by blast
  have p: "prefix (ustr ''<View'') (group0 m)" unfolding g by simp
  have "group0 m = (ustr ''<View'' @ attrs @ [of_char CHR ''>''] @ body) @ ustr ''</View>''"
    unfolding g by simp
  then have s: "suffix (ustr ''</View>'') (group0 m)" by (metis suffix_def)
  from c finditer_position [OF assms(1)] p s show ?thesis by blast
qed

theorem issue_snippet_witness:
  "\<lparr>m_start = 14, group0 = ustr ''<View>bbbbbbbbbbbbbbbbbbbbbbbbbbbbbbbbbbbbbbbbbbbbbbbbbbbbbbbbbbbbbbbbbbbbbbbbbbbbbbbbbbbbbbbbbbbbbbbbbbbb</View>'', m_marks = [6, 106]\<rparr> \<in> set (finditer view_pattern (ustr ''<View>a</View><View>bbbbbbbbbbbbbbbbbbbbbbbbbbbbbbbbbbbbbbbbbbbbbbbbbbbbbbbbbbbbbbbbbbbbbbbbbbbbbbbbbbbbbbbbbbbbbbbbbbbb</View>'')) \<and>
   \<lparr>file = ustr ''App.tsx'', line = 1, content = ustr ''<View>bbbbbbbbbbbbbbbbbbbbbbbbbbbbbbbbbbbbbbbbbbbbbbbbbbbbbbbbbbbbbbbbbbbbbbbbbbbbbbbbbbbbbbbbbbbbbb...''\<rparr> \<in> set (region_issues (ustr ''App.tsx'') (ustr ''<View>a</View><View>bbbbbbbbbbbbbbbbbbbbbbbbbbbbbbbbbbbbbbbbbbbbbbbbbbbbbbbbbbbbbbbbbbbbbbbbbbbbbbbbbbbbbbbbbbbbbbbbbbbb</View>'') \<lparr>m_start = 14, group0 = ustr ''<View>bbbbbbbbbbbbbbbbbbbbbbbbbbbbbbbbbbbbbbbbbbbbbbbbbbbbbbbbbbbbbbbbbbbbbbbbbbbbbbbbbbbbbbbbbbbbbbbbbbbb</View>'', m_marks = [6, 106]\<rparr>) \<and>
   scan_content (ustr ''App.tsx'') (ustr ''<View>a</View><View>bbbbbbbbbbbbbbbbbbbbbbbbbbbbbbbbbbbbbbbbbbbbbbbbbbbbbbbbbbbbbbbbbbbbbbbbbbbbbbbbbbbbbbbbbbbbbbbbbbbb</View>'') =
     [\<lparr>file = ustr ''App.tsx'', line = 1, content = ustr ''<View>a</View>''\<rparr>, \<lparr>file = ustr ''App.tsx'', line = 1, content = ustr ''<View>bbbbbbbbbbbbbbbbbbbbbbbbbbbbbbbbbbbbbbbbbbbbbbbbbbbbbbbbbbbbbbbbbbbbbbbbbbbbbbbbbbbbbbbbbbbbbb...''\<rparr>] \<and>
   content \<lparr>file = ustr ''App.tsx'', line = 1, content = ustr ''<View>bbbbbbbbbbbbbbbbbbbbbbbbbbbbbbbbbbbbbbbbbbbbbbbbbbbbbbbbbbbbbbbbbbbbbbbbbbbbbbbbbbbbbbbbbbbbbb...''\<rparr> =
     (if 100 < length (group0 \<lparr>m_start = 14, group0 = ustr ''<View>bbbbbbbbbbbbbbbbbbbbbbbbbbbbbbbbbbbbbbbbbbbbbbbbbbbbbbbbbbbbbbbbbbbbbbbbbbbbbbbbbbbbbbbbbbbbbbbbbbbb</View>'', m_marks = [6, 106]\<rparr>) then take 100 (group0 \<lparr>m_start = 14, group0 = ustr ''<View>bbbbbbbbbbbbbbbbbbbbbbbbbbbbbbbbbbbbbbbbbbbbbbbbbbbbbbbbbbbbbbbbbbbbbbbbbbbbbbbbbbbbbbbbbbbbbbbbbbbb</View>'', m_marks = [6, 106]\<rparr>) @ ustr ''...''
      else group0 \<lparr>m_start = 14, group0 = ustr ''<View>bbbbbbbbbbbbbbbbbbbbbbbbbbbbbbbbbbbbbbbbbbbbbbbbbbbbbbbbbbbbbbbbbbbbbbbbbbbbbbbbbbbbbbbbbbbbbbbbbbbb</View>'', m_marks = [6, 106]\<rparr>) \<and>
   (\<exists>pre rest. ustr ''<View>a</View><View>bbbbbbbbbbbbbbbbbbbbbbbbbbbbbbbbbbbbbbbbbbbbbbbbbbbbbbbbbbbbbbbbbbbbbbbbbbbbbbbbbbbbbbbbbbbbbbbbbbbb</View>'' = pre @ group0 \<lparr>m_start = 14, group0 = ustr ''<View>bbbbbbbbbbbbbbbbbbbbbbbbbbbbbbbbbbbbbbbbbbbbbbbbbbbbbbbbbbbbbbbbbbbbbbbbbbbbbbbbbbbbbbbbbbbbbbbbbbbb</View>'', m_marks = [6, 106]\<rparr> @ rest \<and> length pre = m_start \<lparr>m_start = 14, group0 = ustr ''<View>bbbbbbbbbbbbbbbbbbbbbbbbbbbbbbbbbbbbbbbbbbbbbbbbbbbbbbbbbbbbbbbbbbbbbbbbbbbbbbbbbbbbbbbbbbbbbbbbbbbb</View>'', m_marks = [6, 106]\<rparr>) \<and>
   prefix (ustr ''<View'') (group0 \<lparr>m_start = 14, group0 = ustr ''<View>bbbbbbbbbbbbbbbbbbbbbbbbbbbbbbbbbbbbbbbbbbbbbbbbbbbbbbbbbbbbbbbbbbbbbbbbbbbbbbbbbbbbbbbbbbbbbbbbbbbb</View>'', m_marks = [6, 106]\<rparr>) \<and> suffix (ustr ''</View>'') (group0 \<lparr>m_start = 14, group0 = ustr ''<View>bbbbbbbbbbbbbbbbbbbbbbbbbbbbbbbbbbbbbbbbbbbbbbbbbbbbbbbbbbbbbbbbbbbbbbbbbbbbbbbbbbbbbbbbbbbbbbbbbbbb</View>'', m_marks = [6, 106]\<rparr>)"
proof -
  have h1: "\<lparr>m_start = 14, group0 = ustr ''<View>bbbbbbbbbbbbbbbbbbbbbbbbbbbbbbbbbbbbbbbbbbbbbbbbbbbbbbbbbbbbbbbbbbbbbbbbbbbbbbbbbbbbbbbbbbbbbbbbbbbb</View>'', m_marks = [6, 106]\<rparr> \<in> set (finditer view_pattern (ustr ''<View>a</View><View>bbbbbbbbbbbbbbbbbbbbbbbbbbbbbbbbbbbbbbbbbbbbbbbbbbbbbbbbbbbbbbbbbbbbbbbbbbbbbbbbbbbbbbbbbbbbbbbbbbbb</View>''))"
    by (simp add: eval_defs)
  have h2: "\<lparr>file = ustr ''App.tsx'', line = 1, content = ustr ''<View>bbbbbbbbbbbbbbbbbbbbbbbbbbbbbbbbbbbbbbbbbbbbbbbbbbbbbbbbbbbbbbbbbbbbbbbbbbbbbbbbbbbbbbbbbbbbbb...''\<rparr> \<in> set (region_issues (ustr ''App.tsx'') (ustr ''<View>a</View><View>bbbbbbbbbbbbbbbbbbbbbbbbbbbbbbbbbbbbbbbbbbbbbbbbbbbbbbbbbbbbbbbbbbbbbbbbbbbbbbbbbbbbbbbbbbbbbbbbbbbb</View>'') \<lparr>m_start = 14, group0 = ustr ''<View>bbbbbbbbbbbbbbbbbbbbbbbbbbbbbbbbbbbbbbbbbbbbbbbbbbbbbbbbbbbbbbbbbbbbbbbbbbbbbbbbbbbbbbbbbbbbbbbbbbbb</View>'', m_marks = [6, 106]\<rparr>)"
    by (simp add: eval_defs)
  have e: "scan_content (ustr ''App.tsx'') (ustr ''<View>a</View><View>bbbbbbbbbbbbbbbbbbbbbbbbbbbbbbbbbbbbbbbbbbbbbbbbbbbbbbbbbbbbbbbbbbbbbbbbbbbbbbbbbbbbbbbbbbbbbbbbbbbb</View>'') =
     [\<lparr>file = ustr ''App.tsx'', line = 1, content = ustr ''<View>a</View>''\<rparr>, \<lparr>file = ustr ''App.tsx'', line = 1, content = ustr ''<View>bbbbbbbbbbbbbbbbbbbbbbbbbbbbbbbbbbbbbbbbbbbbbbbbbbbbbbbbbbbbbbbbbbbbbbbbbbbbbbbbbbbbbbbbbbbbbb...''\<rparr>]"
    by (simp add: eval_defs)
  from issue_snippet [OF h1 h2] h1 h2 e show ?thesis by (intro conjI) blast+
qed

section \<open>Region extraction\<close>

text \<open>
  C4. Region extraction on a file's text \<open>txt\<close>.
  (1) Every region found sits in the text at its start offset and is an opening
  \<open><View\<close>, attribute text without \<open>>\<close>, a \<open>>\<close>, a body (group 1) and the closing tag
  \<open></View>\<close>, where the closing tag occurs nowhere in the body followed by the closing
  tag before the body's end: the body reaches to the first closing tag and no further,
  line breaks or not.
  (2) The regions come left to right and do not overlap.
  (3) Every place of the text where an opening tag with a closing tag somewhere behind
  it starts lies inside a region found (or is its start): no occurrence is passed over,
  so each region starts at the leftmost occurrence behind the region before it.
  (4) In particular, a text that starts with an opening tag and whose body up to the
  first closing tag holds another opening tag of the container gives a first region
  whose body ends at that first closing tag, not at the structurally matching one.
\<close>

theorem region_extraction:
  "(\<forall>m\<in>set (finditer view_pattern txt).
      \<exists>pre attrs body rest.
        txt = pre @ group0 m @ rest \<and> length pre = m_start m \<and>
        group0 m = ustr ''<View'' @ attrs @ [of_char CHR ''>''] @ body @ ustr ''</View>'' \<and>
        of_char CHR ''>'' \<notin> set attrs \<and> group1 m = body \<and>
        find_sub (ustr ''</View>'') (body @ ustr ''</View>'') = Some (length body)) \<and>
   sorted_wrt (\<lambda>m m'. m_start m + length (group0 m) \<le> m_start m')
     (finditer view_pattern txt) \<and>
   (\<forall>p attrs body rest.
      drop p txt = ustr ''<View'' @ attrs @ [of_char CHR ''>''] @ body @ ustr ''</View>'' @ rest \<and> of_char CHR ''>'' \<notin> set attrs \<longrightarrow>
      (\<exists>m\<in>set (finditer view_pattern txt).
         m_start m \<le> p \<and> p < m_start m + length (group0 m))) \<and>
   (\<forall>attrs body rest.
      of_char CHR ''>'' \<notin> set attrs \<and> find_sub (ustr ''</View>'') (body @ ustr ''</View>'') = Some (length body) \<longrightarrow>
      (\<exists>ms. finditer view_pattern (ustr ''<View'' @ attrs @ [of_char CHR ''>''] @ body @ ustr ''</View>'' @ rest) =
         \<lparr>m_start = 0, group0 = ustr ''<View'' @ attrs @ [of_char CHR ''>''] @ body @ ustr ''</View>'',
           m_marks = [6 + length attrs, 6 + length attrs + length body]\<rparr> # ms))"
proof (intro conjI ballI allI impI)
  fix m
  assume m: "m \<in> set (finditer view_pattern txt)"
  from finditer_position [OF m] obtain pre rest where
    "txt = pre @ group0 m @ rest" "length pre = m_start m" by blast
  moreover from region_structure [OF m] obtain attrs body where
    "group0 m = ustr ''<View'' @ attrs @ [of_char CHR ''>''] @ body @ ustr ''</View>''"
    "of_char CHR ''>'' \<notin> set attrs" "group1 m = body"
    "find_sub (ustr ''</View>'') (body @ ustr ''</View>'') = Some (length body)" by blast
  ultimately show "\<exists>pre attrs body rest.
        txt = pre @ group0 m @ rest \<and> length pre = m_start m \<and>
        group0 m = ustr ''<View'' @ attrs @ [of_char CHR ''>''] @ body @ ustr ''</View>'' \<and>
        of_char CHR ''>'' \<notin> set attrs \<and> group1 m = body \<and>
        find_sub (ustr ''</View>'') (body @ ustr ''</View>'') = Some (length body)" by blast
next
  show "sorted_wrt (\<lambda>m m'. m_start m + length (group0 m) \<le> m_start m')
     (finditer view_pattern txt)"
    unfolding finditer_def by (rule matches_from_sorted)
next
  fix p attrs body rest
  assume "drop p txt = ustr ''<View'' @ attrs @ [of_char CHR ''>''] @ body @ ustr ''</View>'' @ rest \<and> of_char CHR ''>'' \<notin> set attrs"
  then show "\<exists>m\<in>set (finditer view_pattern txt).
         m_start m \<le> p \<and> p < m_start m + length (group0 m)"
    using region_cover by blast
next
  fix attrs body rest :: str
  assume a: "of_char CHR ''>'' \<notin> set attrs \<and> find_sub (ustr ''</View>'') (body @ ustr ''</View>'') = Some (length body)"
  have "finditer view_pattern ((ustr ''<View'' @ attrs @ [of_char CHR ''>''] @ body @ ustr ''</View>'') @ rest) =
      \<lparr>m_start = 0, group0 = ustr ''<View'' @ attrs @ [of_char CHR ''>''] @ body @ ustr ''</View>'',
        m_marks = [6 + length attrs, 6 + length attrs + length body]\<rparr> #
      matches_from (length (ustr ''<View'' @ attrs @ [of_char CHR ''>''] @ body @ ustr ''</View>'')) (scan view_pattern rest)"
    using a by (intro first_region) simp_all
  then show "\<exists>ms. finditer view_pattern (ustr ''<View'' @ attrs @ [of_char CHR ''>''] @ body @ ustr ''</View>'' @ rest) =
         \<lparr>m_start = 0, group0 = ustr ''<View'' @ attrs @ [of_char CHR ''>''] @ body @ ustr ''</View>'',
           m_marks = [6 + length attrs, 6 + length attrs + length body]\<rparr> # ms"
    by simp
qed

theorem region_extraction_witness:
  "\<lparr>m_start = 1, group0 = ustr ''<View a>p<View>q</View>'', m_marks = [8, 16]\<rparr> \<in> set (finditer view_pattern (ustr ''x<View a>p<View>q</View>r</View>'')) \<and>
   (\<exists>pre attrs body rest.
      ustr ''x<View a>p<View>q</View>r</View>'' = pre @ group0 \<lparr>m_start = 1, group0 = ustr ''<View a>p<View>q</View>'', m_marks = [8, 16]\<rparr> @ rest \<and> length pre = m_start \<lparr>m_start = 1, group0 = ustr ''<View a>p<View>q</View>'', m_marks = [8, 16]\<rparr> \<and>
      group0 \<lparr>m_start = 1, group0 = ustr ''<View a>p<View>q</View>'', m_marks = [8, 16]\<rparr> = ustr ''<View'' @ attrs @ [of_char CHR ''>''] @ body @ ustr ''</View>'' \<and>
      of_char CHR ''>'' \<notin> set attrs \<and> group1 \<lparr>m_start = 1, group0 = ustr ''<View a>p<View>q</View>'', m_marks = [8, 16]\<rparr> = body \<and>
      find_sub (ustr ''</View>'') (body @ ustr ''</View>'') = Some (length body)) \<and>
   group1 \<lparr>m_start = 1, group0 = ustr ''<View a>p<View>q</View>'', m_marks = [8, 16]\<rparr> = ustr ''p<View>q'' \<and>
   drop 1 (ustr ''x<View a>p<View>q</View>r</View>'') = ustr ''<View'' @ ustr '' a'' @ [of_char CHR ''>''] @ ustr ''p<View>q'' @ ustr ''</View>'' @ ustr ''r</View>'' \<and>
   (\<exists>m\<in>set (finditer view_pattern (ustr ''x<View a>p<View>q</View>r</View>'')).
      m_start m \<le> 1 \<and> 1 < m_start m + length (group0 m)) \<and>
   find_sub (ustr ''</View>'') (ustr ''p<View>q'' @ ustr ''</View>'') = Some (length (ustr ''p<View>q'')) \<and>
   (\<exists>ms. finditer view_pattern
       (ustr ''<View'' @ ustr '' a'' @ [of_char CHR ''>''] @ ustr ''p<View>q'' @ ustr ''</View>'' @ ustr ''r</View>'') =
      \<lparr>m_start = 0, group0 = ustr ''<View'' @ ustr '' a'' @ [of_char CHR ''>''] @ ustr ''p<View>q'' @ ustr ''</View>'',
        m_marks = [6 + length (ustr '' a''),
                   6 + length (ustr '' a'') + length (ustr ''p<View>q'')]\<rparr> # ms)"
proof -
  note r = region_extraction [of "ustr ''x<View a>p<View>q</View>r</View>''"]
  have h1: "\<lparr>m_start = 1, group0 = ustr ''<View a>p<View>q</View>'', m_marks = [8, 16]\<rparr> \<in> set (finditer view_pattern (ustr ''x<View a>p<View>q</View>r</View>''))"
    by (simp add: eval_defs)
  have g1: "group1 \<lparr>m_start = 1, group0 = ustr ''<View a>p<View>q</View>'', m_marks = [8, 16]\<rparr> = ustr ''p<View>q''"
    by (simp add: eval_defs)
  have h2: "drop 1 (ustr ''x<View a>p<View>q</View>r</View>'') =
      ustr ''<View'' @ ustr '' a'' @ [of_char CHR ''>''] @ ustr ''p<View>q'' @ ustr ''</View>'' @ ustr ''r</View>''"
    by (simp add: eval_defs)
  have h3: "of_char CHR ''>'' \<notin> set (ustr '' a'')"
    by (simp add: eval_defs)
  have h4: "find_sub (ustr ''</View>'') (ustr ''p<View>q'' @ ustr ''</View>'') = Some (length (ustr ''p<View>q''))"
    by (simp add: eval_defs)
  from r h1 have c1: "\<exists>pre attrs body rest.
      ustr ''x<View a>p<View>q</View>r</View>'' = pre @ group0 \<lparr>m_start = 1, group0 = ustr ''<View a>p<View>q</View>'', m_marks = [8, 16]\<rparr> @ rest \<and> length pre = m_start \<lparr>m_start = 1, group0 = ustr ''<View a>p<View>q</View>'', m_marks = [8, 16]\<rparr> \<and>
      group0 \<lparr>m_start = 1, group0 = ustr ''<View a>p<View>q</View>'', m_marks = [8, 16]\<rparr> = ustr ''<View'' @ attrs @ [of_char CHR ''>''] @ body @ ustr ''</View>'' \<and>
      of_char CHR ''>'' \<notin> set attrs \<and> group1 \<lparr>m_start = 1, group0 = ustr ''<View a>p<View>q</View>'', m_marks = [8, 16]\<rparr> = body \<and>
      find_sub (ustr ''</View>'') (body @ ustr ''</View>'') = Some (length body)" by blast
  from r h2 h3 have c3: "\<exists>m\<in>set (finditer view_pattern (ustr ''x<View a>p<View>q</View>r</View>'')).
      m_start m \<le> 1 \<and> 1 < m_start m + length (group0 m)" by blast
  from r h3 h4 have c4: "\<exists>ms. finditer view_pattern
       (ustr ''<View'' @ ustr '' a'' @ [of_char CHR ''>''] @ ustr ''p<View>q'' @ ustr ''</View>'' @ ustr ''r</View>'') =
      \<lparr>m_start = 0, group0 = ustr ''<View'' @ ustr '' a'' @ [of_char CHR ''>''] @ ustr ''p<View>q'' @ ustr ''</View>'',
        m_marks = [6 + length (ustr '' a''),
                   6 + length (ustr '' a'') + length (ustr ''p<View>q'')]\<rparr> # ms"
    by blast
  from h1 c1 g1 h2 c3 h4 c4 show ?thesis by (intro conjI)
qed

section \<open>Read failures\<close>

text \<open>
  C5, as stated, fails: the diagnostic is printed by the \<open>except\<close> clause itself, and a
  \<open>print\<close> that raises there is caught by nothing. A file whose name holds a lone
  surrogate (a name that is not UTF-8, as \<open>os.walk\<close> gives it) and whose read fails, on a
  standard output that encodes strictly: the \<open>print\<close> raises \<open>UnicodeEncodeError\<close>, no
  diagnostic is printed, the file behind it is never opened, and the function gives back
  the exception and no list of issues.
\<close>

theorem unprintable_diagnostic_ends_scan:
  "find_text_in_views
     (fs_of [(ustr ''src/'' @ [56575] @ ustr ''.tsx'',
              Inl (PermissionError (ustr ''Permission denied''))),
             (ustr ''src/b.tsx'', Inr (ustr ''<View>x</View>''))])
     utf8_strict
     [(ustr ''src'', [], [[56575] @ ustr ''.tsx'', ustr ''b.tsx''])] =
     \<lparr>issues = [], printed = [],
      opened = [ustr ''src/'' @ [56575] @ ustr ''.tsx''],
      raised = Some (UnicodeEncodeError (ustr ''surrogates not allowed''))\<rparr> \<and>
   returned (find_text_in_views
     (fs_of [(ustr ''src/'' @ [56575] @ ustr ''.tsx'',
              Inl (PermissionError (ustr ''Permission denied''))),
             (ustr ''src/b.tsx'', Inr (ustr ''<View>x</View>''))])
     utf8_strict
     [(ustr ''src'', [], [[56575] @ ustr ''.tsx'', ustr ''b.tsx''])]) =
     Inl (UnicodeEncodeError (ustr ''surrogates not allowed''))"
  by (simp add: walk_defs eval_defs)

text \<open>
  C5, amended. A selected file \<open>f\<close> of a directory that is not excluded, whose read
  fails with the error \<open>e\<close>, and whose diagnostic line (\<open>Error reading\<close>, the file's
  path, a colon and the error's text) the output stream accepts: the file adds no issue
  and does not end the scan. Stated against the same walk without the file: the issues
  are the same, those of the files before and behind it included, and so is the
  exception that leaves the function, if any; and when no exception has left the
  function before the file is reached, the printed lines are those of that walk with the
  diagnostic put in at the file's place, and the paths opened are those of that walk
  with the file's path put in.
\<close>

theorem read_failure_skips_file:
  assumes "\<not> excluded root" and "selected f" and "fs (join root f) = Inl e"
    and "out (ustr ''Error reading '' @ join root f @ ustr '': '' @ error_text e) = None"
  shows "issues (find_text_in_views fs out (w1 @ (root, dirs, fl1 @ f # fl2) # w2)) =
           issues (find_text_in_views fs out (w1 @ (root, dirs, fl1 @ fl2) # w2)) \<and>
         raised (find_text_in_views fs out (w1 @ (root, dirs, fl1 @ f # fl2) # w2)) =
           raised (find_text_in_views fs out (w1 @ (root, dirs, fl1 @ fl2) # w2)) \<and>
         (raised (find_text_in_views fs out (w1 @ [(root, dirs, fl1)])) = None \<longrightarrow>
          (\<exists>P1 P2 O1 O2.
             printed (find_text_in_views fs out (w1 @ (root, dirs, fl1 @ f # fl2) # w2)) =
               P1 @ [ustr ''Error reading '' @ join root f @ ustr '': '' @ error_text e] @ P2 \<and>
             printed (find_text_in_views fs out (w1 @ (root, dirs, fl1 @ fl2) # w2)) =
               P1 @ P2 \<and>
             opened (find_text_in_views fs out (w1 @ (root, dirs, fl1 @ f # fl2) # w2)) =
               O1 @ [join root f] @ O2 \<and>
             opened (find_text_in_views fs out (w1 @ (root, dirs, fl1 @ fl2) # w2)) =
               O1 @ O2))"
proof -
  define A where "A = scan_paths w1 @ map (join root) (filter selected fl1)"
  define B where "B = map (join root) (filter selected fl2) @ scan_paths w2"
  define p where "p = join root f"
  define dg where "dg = ustr ''Error reading '' @ join root f @ ustr '': '' @ error_text e"
  have w: "scan_paths (w1 @ (root, dirs, fl1 @ f # fl2) # w2) = A @ p # B"
    using assms(1,2) by (simp add: scan_paths_append A_def B_def p_def)
  have wo: "scan_paths (w1 @ (root, dirs, fl1 @ fl2) # w2) = A @ B"
    using assms(1) by (simp add: scan_paths_append A_def B_def)
  have wp: "scan_paths (w1 @ [(root, dirs, fl1)]) = A"
    using assms(1) by (simp add: scan_paths_append A_def)
  have se: "stop_error fs out p = None"
    using assms(3,4) by (simp add: stop_error_def diagnostic_def p_def)
  have pi: "path_issues fs p = []"
    using assms(3) by (simp add: path_issues_def p_def)
  have pp: "path_prints fs out p = [dg]"
    using assms(3,4) by (simp add: path_prints_def diagnostic_def p_def dg_def)
  have fr: "first_raise fs out (A @ p # B) = first_raise fs out (A @ B)"
    by (cases "first_raise fs out A") (simp_all add: first_raise_append se)
  have iss: "concat (map (path_issues fs) (reached fs out (A @ p # B))) =
      concat (map (path_issues fs) (reached fs out (A @ B)))"
    by (cases "first_raise fs out A") (simp_all add: reached_append se pi)
  have c1: "issues (find_text_in_views fs out (w1 @ (root, dirs, fl1 @ f # fl2) # w2)) =
      issues (find_text_in_views fs out (w1 @ (root, dirs, fl1 @ fl2) # w2))"
    unfolding find_text_in_views_eq w wo using iss by simp
  have c2: "raised (find_text_in_views fs out (w1 @ (root, dirs, fl1 @ f # fl2) # w2)) =
      raised (find_text_in_views fs out (w1 @ (root, dirs, fl1 @ fl2) # w2))"
    unfolding find_text_in_views_eq w wo using fr by simp
  have c3: "\<exists>P1 P2 O1 O2.
       printed (find_text_in_views fs out (w1 @ (root, dirs, fl1 @ f # fl2) # w2)) =
         P1 @ [dg] @ P2 \<and>
       printed (find_text_in_views fs out (w1 @ (root, dirs, fl1 @ fl2) # w2)) = P1 @ P2 \<and>
       opened (find_text_in_views fs out (w1 @ (root, dirs, fl1 @ f # fl2) # w2)) =
         O1 @ [p] @ O2 \<and>
       opened (find_text_in_views fs out (w1 @ (root, dirs, fl1 @ fl2) # w2)) = O1 @ O2"
    if r: "raised (find_text_in_views fs out (w1 @ [(root, dirs, fl1)])) = None"
  proof -
    from r have n: "first_raise fs out A = None"
      unfolding find_text_in_views_eq wp by simp
    have r1: "reached fs out (A @ p # B) = A @ p # reached fs out B"
      using n by (simp add: reached_append se)
    have r2: "reached fs out (A @ B) = A @ reached fs out B"
      using n by (simp add: reached_append)
    have "printed (find_text_in_views fs out (w1 @ (root, dirs, fl1 @ f # fl2) # w2)) =
        concat (map (path_prints fs out) A) @ [dg] @
        concat (map (path_prints fs out) (reached fs out B))"
      unfolding find_text_in_views_eq w r1 by (simp add: pp)
    moreover have "printed (find_text_in_views fs out (w1 @ (root, dirs, fl1 @ fl2) # w2)) =
        concat (map (path_prints fs out) A) @
        concat (map (path_prints fs out) (reached fs out B))"
      unfolding find_text_in_views_eq wo r2 by simp
    moreover have "opened (find_text_in_views fs out (w1 @ (root, dirs, fl1 @ f # fl2) # w2)) =
        A @ [p] @ reached fs out B"
      unfolding find_text_in_views_eq w r1 by simp
    moreover have "opened (find_text_in_views fs out (w1 @ (root, dirs, fl1 @ fl2) # w2)) =
        A @ reached fs out B"
      unfolding find_text_in_views_eq wo r2 by simp
    ultimately show ?thesis by blast
  qed
  show ?thesis using c1 c2 c3 unfolding dg_def p_def by blast
qed

theorem read_failure_skips_file_witness:
  "excluded (ustr ''src'') = False \<and> selected (ustr ''a.tsx'') \<and>
   fs_of [(ustr ''src/a.tsx'', Inl (PermissionError (ustr ''Permission denied''))),
          (ustr ''src/b.tsx'', Inr (ustr ''<View>x</View>''))]
     (join (ustr ''src'') (ustr ''a.tsx'')) =
     Inl (PermissionError (ustr ''Permission denied'')) \<and>
   utf8_strict (ustr ''Error reading src/a.tsx: Permission denied'') = None \<and>
   find_text_in_views
     (fs_of [(ustr ''src/a.tsx'', Inl (PermissionError (ustr ''Permission denied''))),
             (ustr ''src/b.tsx'', Inr (ustr ''<View>x</View>''))])
     utf8_strict
     [(ustr ''src'', [], [ustr ''a.tsx'', ustr ''b.tsx''])] =
     \<lparr>issues = [\<lparr>file = ustr ''src/b.tsx'', line = 1, content = ustr ''<View>x</View>''\<rparr>],
      printed = [ustr ''Error reading src/a.tsx: Permission denied''],
      opened = [ustr ''src/a.tsx'', ustr ''src/b.tsx''],
      raised = None\<rparr> \<and>
   find_text_in_views
     (fs_of [(ustr ''src/a.tsx'', Inl (PermissionError (ustr ''Permission denied''))),
             (ustr ''src/b.tsx'', Inr (ustr ''<View>x</View>''))])
     utf8_strict
     [(ustr ''src'', [], [ustr ''b.tsx''])] =
     \<lparr>issues = [\<lparr>file = ustr ''src/b.tsx'', line = 1, content = ustr ''<View>x</View>''\<rparr>],
      printed = [],
      opened = [ustr ''src/b.tsx''],
      raised = None\<rparr> \<and>
   issues (find_text_in_views
     (fs_of [(ustr ''src/a.tsx'', Inl (PermissionError (ustr ''Permission denied''))),
             (ustr ''src/b.tsx'', Inr (ustr ''<View>x</View>''))])
     utf8_strict
     ([] @ (ustr ''src'', [], [] @ ustr ''a.tsx'' # [ustr ''b.tsx'']) # [])) =
   issues (find_text_in_views
     (fs_of [(ustr ''src/a.tsx'', Inl (PermissionError (ustr ''Permission denied''))),
             (ustr ''src/b.tsx'', Inr (ustr ''<View>x</View>''))])
     utf8_strict
     ([] @ (ustr ''src'', [], [] @ [ustr ''b.tsx'']) # []))"
proof -
  let ?fs = "fs_of [(ustr ''src/a.tsx'', Inl (PermissionError (ustr ''Permission denied''))),
          (ustr ''src/b.tsx'', Inr (ustr ''<View>x</View>''))]"
  have h1: "\<not> excluded (ustr ''src'')" by (simp add: walk_defs eval_defs)
  have h2: "selected (ustr ''a.tsx'')" by (simp add: walk_defs eval_defs)
  have h3: "?fs (join (ustr ''src'') (ustr ''a.tsx'')) =
      Inl (PermissionError (ustr ''Permission denied''))"
    by (simp add: walk_defs eval_defs)
  have h4: "utf8_strict (ustr ''Error reading '' @ join (ustr ''src'') (ustr ''a.tsx'') @
      ustr '': '' @ error_text (PermissionError (ustr ''Permission denied''))) = None"
    by (simp add: walk_defs eval_defs)
  have h4': "utf8_strict (ustr ''Error reading src/a.tsx: Permission denied'') = None"
    by (simp add: walk_defs eval_defs)
  have e: "find_text_in_views ?fs utf8_strict
       [(ustr ''src'', [], [ustr ''a.tsx'', ustr ''b.tsx''])] =
     \<lparr>issues = [\<lparr>file = ustr ''src/b.tsx'', line = 1, content = ustr ''<View>x</View>''\<rparr>],
      printed = [ustr ''Error reading src/a.tsx: Permission denied''],
      opened = [ustr ''src/a.tsx'', ustr ''src/b.tsx''],
      raised = None\<rparr>"
    by (simp add: walk_defs eval_defs)
  have e2: "find_text_in_views ?fs utf8_strict [(ustr ''src'', [], [ustr ''b.tsx''])] =
     \<lparr>issues = [\<lparr>file = ustr ''src/b.tsx'', line = 1, content = ustr ''<View>x</View>''\<rparr>],
      printed = [],
      opened = [ustr ''src/b.tsx''],
      raised = None\<rparr>"
    by (simp add: walk_defs eval_defs)
  have c: "issues (find_text_in_views ?fs utf8_strict
     ([] @ (ustr ''src'', [], [] @ ustr ''a.tsx'' # [ustr ''b.tsx'']) # [])) =
   issues (find_text_in_views ?fs utf8_strict
     ([] @ (ustr ''src'', [], [] @ [ustr ''b.tsx'']) # []))"
    by (rule read_failure_skips_file [of "ustr ''src''" "ustr ''a.tsx''" ?fs
      "PermissionError (ustr ''Permission denied'')" utf8_strict "[]" "[]" "[]"
      "[ustr ''b.tsx'']" "[]", OF h1 h2 h3 h4, THEN conjunct1])
  from h1 h2 h3 h4' e e2 c show ?thesis by simp
qed

section \<open>Excluded directories\<close>

text \<open>
  C6, as stated, fails: the script tests the directory's path \<open>root\<close>, not the file's
  path. A file \<open>build.tsx\<close> in the directory \<open>src\<close> has the marker \<open>build\<close> in its
  path, and it is opened and reported.
\<close>

theorem marker_in_file_name_scanned:
  "str_in (ustr ''build'') (join (ustr ''src'') (ustr ''build.tsx'')) \<and>
   find_text_in_views (fs_of [(ustr ''src/build.tsx'', Inr (ustr ''<View>x</View>''))])
     accept_all [(ustr ''src'', [], [ustr ''build.tsx''])] =
     \<lparr>issues =
        [\<lparr>file = ustr ''src/build.tsx'', line = 1, content = ustr ''<View>x</View>''\<rparr>],
      printed = [],
      opened = [ustr ''src/build.tsx''],
      raised = None\<rparr>"
  by (simp add: walk_defs eval_defs)

text \<open>
  C6, amended. For every directory whose path, as the walk yields it, contains
  \<open>node_modules\<close>, \<open>.git\<close> or \<open>build\<close> as a substring, no file of the directory is
  opened and none adds an issue or a printed line: the scan is the same as without the
  directory's entry. Every path opened is a selected file of a directory whose path
  contains no marker, and every issue is of a file that was opened.
\<close>

theorem excluded_directory_skipped:
  "(excluded root \<longrightarrow>
      find_text_in_views fs out (w1 @ (root, dirs, files) # w2) =
      find_text_in_views fs out (w1 @ w2)) \<and>
   (\<forall>p\<in>set (opened (find_text_in_views fs out w)).
      \<exists>root dirs files f.
        (root, dirs, files) \<in> set w \<and> excluded root = False \<and>
        f \<in> set files \<and> selected f \<and> p = join root f) \<and>
   (\<forall>i\<in>set (issues (find_text_in_views fs out w)).
      file i \<in> set (opened (find_text_in_views fs out w)))"
proof (intro conjI impI ballI)
  assume "excluded root"
  then have "scan_paths (w1 @ (root, dirs, files) # w2) = scan_paths (w1 @ w2)"
    by (simp add: scan_paths_append)
  then show "find_text_in_views fs out (w1 @ (root, dirs, files) # w2) =
      find_text_in_views fs out (w1 @ w2)"
    by (simp only: find_text_in_views_eq)
next
  fix p
  assume "p \<in> set (opened (find_text_in_views fs out w))"
  then have "p \<in> set (scan_paths w)"
    using reached_subset [of fs out "scan_paths w"] by (auto simp: find_text_in_views_eq)
  from scan_paths_mem [OF this]
  show "\<exists>root dirs files f.
        (root, dirs, files) \<in> set w \<and> excluded root = False \<and>
        f \<in> set files \<and> selected f \<and> p = join root f"
    by auto
next
  fix i
  assume "i \<in> set (issues (find_text_in_views fs out w))"
  then obtain p where p: "p \<in> set (reached fs out (scan_paths w))"
    and i: "i \<in> set (path_issues fs p)"
    by (auto simp: find_text_in_views_eq)
  from path_issues_file [OF i] p
  show "file i \<in> set (opened (find_text_in_views fs out w))"
    by (simp add: find_text_in_views_eq)
qed

theorem excluded_directory_skipped_witness:
  "excluded (ustr ''app/node_modules/rn'') \<and>
   find_text_in_views (fs_of [(ustr ''app/node_modules/rn/View.tsx'', Inr (ustr ''<View>x</View>'')),
                              (ustr ''app/src/A.tsx'', Inr (ustr ''<View>y</View>''))])
     accept_all
     ([(ustr ''app/src'', [], [ustr ''A.tsx''])] @
      (ustr ''app/node_modules/rn'', [], [ustr ''View.tsx'']) # []) =
   find_text_in_views (fs_of [(ustr ''app/node_modules/rn/View.tsx'', Inr (ustr ''<View>x</View>'')),
                              (ustr ''app/src/A.tsx'', Inr (ustr ''<View>y</View>''))])
     accept_all
     ([(ustr ''app/src'', [], [ustr ''A.tsx''])] @ []) \<and>
   find_text_in_views (fs_of [(ustr ''app/node_modules/rn/View.tsx'', Inr (ustr ''<View>x</View>'')),
                              (ustr ''app/src/A.tsx'', Inr (ustr ''<View>y</View>''))])
     accept_all
     [(ustr ''app/src'', [], [ustr ''A.tsx'']),
      (ustr ''app/node_modules/rn'', [], [ustr ''View.tsx''])] =
     \<lparr>issues =
        [\<lparr>file = ustr ''app/src/A.tsx'', line = 1, content = ustr ''<View>y</View>''\<rparr>],
      printed = [],
      opened = [ustr ''app/src/A.tsx''],
      raised = None\<rparr> \<and>
   (\<exists>root dirs files f.
      (root, dirs, files) \<in> set [(ustr ''app/src'', []::str list, [ustr ''A.tsx'']),
        (ustr ''app/node_modules/rn'', [], [ustr ''View.tsx''])] \<and>
      excluded root = False \<and> f \<in> set files \<and> selected f \<and>
      ustr ''app/src/A.tsx'' = join root f)"
proof -
  let ?fs = "fs_of [(ustr ''app/node_modules/rn/View.tsx'', Inr (ustr ''<View>x</View>'')),
                    (ustr ''app/src/A.tsx'', Inr (ustr ''<View>y</View>''))]"
  have h: "excluded (ustr ''app/node_modules/rn'')" by (simp add: walk_defs eval_defs)
  have e: "find_text_in_views ?fs accept_all
     [(ustr ''app/src'', [], [ustr ''A.tsx'']),
      (ustr ''app/node_modules/rn'', [], [ustr ''View.tsx''])] =
     \<lparr>issues =
        [\<lparr>file = ustr ''app/src/A.tsx'', line = 1, content = ustr ''<View>y</View>''\<rparr>],
      printed = [],
      opened = [ustr ''app/src/A.tsx''],
      raised = None\<rparr>"
    by (simp add: walk_defs eval_defs)
  from excluded_directory_skipped [of "ustr ''app/node_modules/rn''" ?fs accept_all
      "[(ustr ''app/src'', [], [ustr ''A.tsx''])]" "[]" "[ustr ''View.tsx'']" "[]"] h
  have "find_text_in_views ?fs accept_all
     ([(ustr ''app/src'', [], [ustr ''A.tsx''])] @
      (ustr ''app/node_modules/rn'', [], [ustr ''View.tsx'']) # []) =
   find_text_in_views ?fs accept_all ([(ustr ''app/src'', [], [ustr ''A.tsx''])] @ [])"
    by blast
  moreover have mem: "ustr ''app/src/A.tsx'' \<in> set (opened (find_text_in_views ?fs accept_all
     [(ustr ''app/src'', [], [ustr ''A.tsx'']),
      (ustr ''app/node_modules/rn'', [], [ustr ''View.tsx''])]))"
    unfolding e by simp
  have "\<exists>root dirs files f.
      (root, dirs, files) \<in> set [(ustr ''app/src'', []::str list, [ustr ''A.tsx'']),
        (ustr ''app/node_modules/rn'', [], [ustr ''View.tsx''])] \<and>
      excluded root = False \<and> f \<in> set files \<and> selected f \<and>
      ustr ''app/src/A.tsx'' = join root f"
    by (rule bspec [OF excluded_directory_skipped [of "ustr ''app/node_modules/rn''" ?fs accept_all
      "[(ustr ''app/src'', [], [ustr ''A.tsx''])]" "[]" "[ustr ''View.tsx'']" "[]"
      "[(ustr ''app/src'', [], [ustr ''A.tsx'']),
        (ustr ''app/node_modules/rn'', [], [ustr ''View.tsx''])]",
      THEN conjunct2, THEN conjunct1] mem])
  ultimately show ?thesis using h e by simp
qed

section \<open>Tags that are not the container\<close>

text \<open>
  C9. The opening part of \<open>view_pattern\<close> is \<open><View[^>]*>\<close> with no word boundary behind
  the name, so a tag whose name only begins with \<open>View\<close> opens a region: in
  \<open><Viewport>abc</View>\<close> and in \<open><ViewShot ref={r}>abc</View>\<close> the rest of the name is
  taken as attribute text, one region is extracted from the tag to the closing
  \<open></View>\<close>, and it is reported as an issue.
\<close>

theorem name_prefix_tag_extracted:
  "finditer view_pattern (ustr ''<Viewport>abc</View>'') =
     [\<lparr>m_start = 0, group0 = ustr ''<Viewport>abc</View>'', m_marks = [10, 13]\<rparr>] \<and>
   scan_content (ustr ''App.tsx'') (ustr ''<Viewport>abc</View>'') =
     [\<lparr>file = ustr ''App.tsx'', line = 1, content = ustr ''<Viewport>abc</View>''\<rparr>] \<and>
   finditer view_pattern (ustr ''<ViewShot ref={r}>abc</View>'') =
     [\<lparr>m_start = 0, group0 = ustr ''<ViewShot ref={r}>abc</View>'', m_marks = [18, 21]\<rparr>] \<and>
   scan_content (ustr ''App.tsx'') (ustr ''<ViewShot ref={r}>abc</View>'') =
     [\<lparr>file = ustr ''App.tsx'', line = 1, content = ustr ''<ViewShot ref={r}>abc</View>''\<rparr>]"
  by (simp add: eval_defs)

text \<open>
  C10. A self-closing \<open><View />\<close> is matched as an opening tag: with a closing
  \<open></View>\<close> later in the file, here two lines further down, the region runs from the
  self-closing tag to that closing tag, and the issue it produces carries the line of
  the self-closing tag, line 2.
\<close>

theorem self_closing_tag_opens_region:
  "finditer view_pattern
     (ustr ''<Text>a</Text>'' @ [newline] @ ustr ''<View />'' @ [newline] @ ustr ''hello'' @
      [newline] @ ustr ''</View>'') =
     [\<lparr>m_start = 15,
       group0 = ustr ''<View />'' @ [newline] @ ustr ''hello'' @ [newline] @ ustr ''</View>'',
       m_marks = [8, 15]\<rparr>] \<and>
   scan_content (ustr ''App.tsx'')
     (ustr ''<Text>a</Text>'' @ [newline] @ ustr ''<View />'' @ [newline] @ ustr ''hello'' @
      [newline] @ ustr ''</View>'') =
     [\<lparr>file = ustr ''App.tsx'', line = 2,
       content = ustr ''<View />'' @ [newline] @ ustr ''hello'' @ [newline] @ ustr ''</View>''\<rparr>]"
  by (simp add: eval_defs)

end
